theory Spec2Isabelle
  imports Main "HOL-Library.Word" "HOL-Library.Sublist"
begin

section \<open>Error codes\<close>

text \<open>
  The backends return \<open>std::error_code\<close> values (\<open>stdx::error\<close>).  A default
  constructed code is success; \<open>std::make_error_code (std::errc::x)\<close> is the named
  error \<open>x\<close>.  \<open>from_errc ret\<close> wraps an integer status of the host: status 0 is
  success, any other status is carried as \<open>errno\<close>.  The platform numbering of the
  named \<open>std::errc\<close> constants is not modelled.
\<close>

datatype errc =
    invalid_argument
  | bad_message
  | message_size
  | io_error
  | no_buffer_space
  | operation_not_supported
  | not_connected
  | errno int

type_synonym error_code = "errc option"

definition from_errc :: "int \<Rightarrow> error_code" where
  "from_errc ret = (if ret = 0 then None else Some (errno ret))"

type_synonym byte = "8 word"

section \<open>CoreMIDI output: \<open>midi_out_core\<close>\<close>

text \<open>
  \<open>MIDIObjectRef\<close> handles are 32-bit, 0 is the null handle; \<open>MIDITimeStamp\<close> is a
  64-bit host time.  A packet list built by \<open>send_message\<close> always holds exactly one
  packet, so a list is modelled by its packet.
\<close>

record MIDIPacket =
  timeStamp :: "64 word"
  pkt_data :: "byte list"

text \<open>
  The two host calls that deliver a packet list. The log of calls, in call order, is
  what the host has been asked to emit.
\<close>

datatype host_call =
    MIDIReceived "32 word" MIDIPacket
  | MIDISend "32 word" "32 word" MIDIPacket

fun call_packet :: "host_call \<Rightarrow> MIDIPacket" where
  "call_packet (MIDIReceived e p) = p"
| "call_packet (MIDISend pt d p) = p"

fun is_received :: "host_call \<Rightarrow> bool" where
  "is_received (MIDIReceived e p) = True"
| "is_received (MIDISend pt d p) = False"

definition received_payloads :: "host_call list \<Rightarrow> byte list list" where
  "received_payloads calls = map (pkt_data \<circ> call_packet) (filter is_received calls)"

definition sent_payloads :: "host_call list \<Rightarrow> byte list list" where
  "sent_payloads calls =
     map (pkt_data \<circ> call_packet) (filter (\<lambda>c. \<not> is_received c) calls)"

text \<open>
  The CoreMIDI server is outside the repository: it is a parameter.  Its state \<open>'h\<close>
  is abstract; reading the clock and delivering a packet list return an \<open>OSStatus\<close>
  (\<open>noErr = 0\<close>) and the next host state.
\<close>

record 'h coremidi_host =
  get_current_host_time :: "'h \<Rightarrow> 64 word"
  midi_received :: "32 word \<Rightarrow> MIDIPacket \<Rightarrow> 'h \<Rightarrow> int \<times> 'h"
  midi_send :: "32 word \<Rightarrow> 32 word \<Rightarrow> MIDIPacket \<Rightarrow> 'h \<Rightarrow> int \<times> 'h"

record midi_out_core =
  core_client :: "32 word"
  core_endpoint :: "32 word"
  core_port :: "32 word"
  destinationId :: "32 word"

text \<open>
  \<open>MIDIPacketListInit\<close> followed by \<open>MIDIPacketListAdd\<close> on a buffer of \<open>listSize\<close>
  bytes: the list header (\<open>numPackets\<close>, 4 bytes) and the packet header (time stamp,
  8 bytes; length, 2 bytes) precede the data; the call returns null when the packet
  does not fit.
\<close>

definition MIDIPacketListAdd :: "nat \<Rightarrow> 64 word \<Rightarrow> byte list \<Rightarrow> MIDIPacket option" where
  "MIDIPacketListAdd listSize time bytes =
     (if 14 + length bytes \<le> listSize
      then Some \<lparr>timeStamp = time, pkt_data = bytes\<rparr> else None)"

text \<open>
  The body of the fragment loop after the packet list is built: publish through the
  virtual endpoint if there is one, then send to the bound destination if there is
  one.  A host failure on either path is \<open>io_error\<close>.
\<close>

definition deliver ::
  "'h coremidi_host \<Rightarrow> midi_out_core \<Rightarrow> MIDIPacket \<Rightarrow> host_call list \<Rightarrow> 'h
     \<Rightarrow> error_code \<times> host_call list \<times> 'h" where
  "deliver H self pkt calls h =
     (let (r1, calls1, h1) =
            (if core_endpoint self \<noteq> 0
             then (let (res, h') = midi_received H (core_endpoint self) pkt h
                   in (res, calls @ [MIDIReceived (core_endpoint self) pkt], h'))
             else (0, calls, h))
      in if r1 \<noteq> 0 then (Some io_error, calls1, h1)
         else
           (let (r2, calls2, h2) =
                  (if destinationId self \<noteq> 0
                   then (let (res, h') =
                               midi_send H (core_port self) (destinationId self) pkt h1
                         in (res,
                             calls1 @ [MIDISend (core_port self) (destinationId self) pkt],
                             h'))
                   else (0, calls1, h1))
            in if r2 \<noteq> 0 then (Some io_error, calls2, h2) else (None, calls2, h2)))"

text \<open>
  The loop \<open>while (remainingBytes)\<close> of \<open>send_message\<close>.  The fragment starts at
  \<open>message[nBytes - remainingBytes]\<close> and has \<open>min remainingBytes 65535\<close> bytes.
\<close>

function send_packets ::
  "'h coremidi_host \<Rightarrow> midi_out_core \<Rightarrow> byte list \<Rightarrow> nat \<Rightarrow> nat \<Rightarrow> 64 word \<Rightarrow> nat
     \<Rightarrow> host_call list \<Rightarrow> 'h \<Rightarrow> error_code \<times> host_call list \<times> 'h" where
  "send_packets H self message nBytes listSize timestamp remainingBytes calls h =
     (if remainingBytes = 0 then (None, calls, h)
      else
        (let bytesForPacket = (if remainingBytes > 65535 then 65535 else remainingBytes);
             dataStart = nBytes - remainingBytes
         in case MIDIPacketListAdd listSize timestamp
                   (take bytesForPacket (drop dataStart message)) of
              None \<Rightarrow> (Some message_size, calls, h)
            | Some pkt \<Rightarrow>
                (case deliver H self pkt calls h of
                   (Some e, calls', h') \<Rightarrow> (Some e, calls', h')
                 | (None, calls', h') \<Rightarrow>
                     send_packets H self message nBytes listSize timestamp
                       (remainingBytes - bytesForPacket) calls' h')))"
  by pat_completeness auto
termination
  by (relation "measure (\<lambda>(H, self, message, nBytes, listSize, timestamp, remainingBytes, calls, h).
        remainingBytes)") auto

declare send_packets.simps [simp del]

text \<open>
  \<open>send_message (message, size)\<close> with \<open>size = length message\<close>.  The first statement
  casts the \<open>size_t\<close> to \<open>unsigned int\<close>: \<open>nBytes\<close> is the size modulo \<open>2 ^ 32\<close>.  The
  time stamp is read once, before the loop.  Warnings go to the configuration's sink
  and are not part of the result.
\<close>

definition send_message ::
  "'h coremidi_host \<Rightarrow> midi_out_core \<Rightarrow> byte list \<Rightarrow> 'h
     \<Rightarrow> error_code \<times> host_call list \<times> 'h" where
  "send_message H self message h =
     (let nBytes = length message mod 2 ^ 32
      in if nBytes = 0 then (Some invalid_argument, [], h)
         else if message ! 0 \<noteq> 0xF0 \<and> nBytes > 3 then (Some bad_message, [], h)
         else
           (let timestamp = get_current_host_time H h;
                bufsize = (if nBytes > 65535 then 65535 else nBytes);
                listSize = bufsize + 16
            in send_packets H self message nBytes listSize timestamp nBytes [] h))"

text \<open>A host that accepts every packet list and whose clock advances with every call.\<close>

definition ticking_host :: "nat coremidi_host" where
  "ticking_host =
     \<lparr>get_current_host_time = of_nat,
      midi_received = (\<lambda>e p h. (0, Suc h)),
      midi_send = (\<lambda>pt d p h. (0, Suc h))\<rparr>"

section \<open>JACK output: the ring queue \<open>jack_queue\<close>\<close>

subsection \<open>The host's ring buffer\<close>

text \<open>
  \<open>jack_ringbuffer_t\<close> belongs to the JACK library.  It is seen here as the bytes
  between its read and its write pointer, oldest first, together with its size: the
  size is the requested size rounded up to a power of two (at least 2), and one byte
  always stays free.  A write copies as many bytes as fit, a peek or a read as many
  as are there; each call moves its pointer once, after the copy.  An advance of the
  read pointer is given for counts up to the readable bytes, which is how the queue
  uses it; a larger count leaves nothing readable here.  JACK computes the size as a
  C \<open>int\<close>, so a ring buffer holds less than \<open>2 ^ 31\<close> bytes.
\<close>

record jack_ringbuffer =
  rb_size :: nat
  rb_bytes :: "byte list"

function ringbuffer_power :: "nat \<Rightarrow> nat \<Rightarrow> nat" where
  "ringbuffer_power p sz = (if 2 ^ p < sz then ringbuffer_power (Suc p) sz else p)"
  by pat_completeness auto
termination
  by (relation "measure (\<lambda>(p, sz). sz - 2 ^ p)") (auto intro!: diff_less_mono2)

declare ringbuffer_power.simps [simp del]

definition jack_ringbuffer_create :: "nat \<Rightarrow> jack_ringbuffer" where
  "jack_ringbuffer_create sz = \<lparr>rb_size = 2 ^ ringbuffer_power 1 sz, rb_bytes = []\<rparr>"

definition jack_ringbuffer_write_space :: "jack_ringbuffer \<Rightarrow> nat" where
  "jack_ringbuffer_write_space rb = rb_size rb - 1 - length (rb_bytes rb)"

definition jack_ringbuffer_read_space :: "jack_ringbuffer \<Rightarrow> nat" where
  "jack_ringbuffer_read_space rb = length (rb_bytes rb)"

definition jack_ringbuffer_write :: "jack_ringbuffer \<Rightarrow> byte list \<Rightarrow> nat \<times> jack_ringbuffer" where
  "jack_ringbuffer_write rb src =
     (let n = min (length src) (jack_ringbuffer_write_space rb)
      in (n, rb\<lparr>rb_bytes := rb_bytes rb @ take n src\<rparr>))"

definition jack_ringbuffer_peek :: "jack_ringbuffer \<Rightarrow> nat \<Rightarrow> byte list" where
  "jack_ringbuffer_peek rb cnt = take cnt (rb_bytes rb)"

definition jack_ringbuffer_read :: "jack_ringbuffer \<Rightarrow> nat \<Rightarrow> byte list \<times> jack_ringbuffer" where
  "jack_ringbuffer_read rb cnt = (take cnt (rb_bytes rb), rb\<lparr>rb_bytes := drop cnt (rb_bytes rb)\<rparr>)"

definition jack_ringbuffer_read_advance :: "jack_ringbuffer \<Rightarrow> nat \<Rightarrow> jack_ringbuffer" where
  "jack_ringbuffer_read_advance rb cnt = rb\<lparr>rb_bytes := drop cnt (rb_bytes rb)\<rparr>"

subsection \<open>Frames\<close>

text \<open>
  A frame is the length, then the payload.  The writer copies the first
  \<open>sizeof (int32_t)\<close> bytes of its 64-bit \<open>sz\<close> (the low four bytes, little-endian);
  the reader peeks them into an \<open>int32_t\<close>, a signed value.  Where the reader
  mixes that value with \<open>size_t\<close> operands it is converted to 64 bits unsigned.
\<close>

definition size_sz :: nat where
  "size_sz = 4"

definition encode_int32 :: "nat \<Rightarrow> byte list" where
  "encode_int32 sz =
     [of_nat sz, of_nat (sz div 256), of_nat (sz div 65536), of_nat (sz div 16777216)]"

fun le_value :: "byte list \<Rightarrow> nat" where
  "le_value [] = 0"
| "le_value (b # bs) = unat b + 256 * le_value bs"

definition decode_int32 :: "byte list \<Rightarrow> int" where
  "decode_int32 bs =
     (let u = le_value (take 4 bs)
      in if u < 2 ^ 31 then int u else int u - 2 ^ 32)"

definition to_size_t :: "int \<Rightarrow> nat" where
  "to_size_t i = nat (i mod 2 ^ 64)"

subsection \<open>\<open>jack_queue\<close>\<close>

record jack_queue =
  ringbuffer :: jack_ringbuffer
  ringbuffer_space :: nat

definition jack_queue_new :: "nat \<Rightarrow> jack_queue" where
  "jack_queue_new sz =
     (let rb = jack_ringbuffer_create sz
      in \<lparr>ringbuffer = rb, ringbuffer_space = jack_ringbuffer_write_space rb\<rparr>)"

text \<open>
  \<open>jack_queue::write\<close>, and its wait
  \<open>while (write_space < sz + size_sz) sched_yield ()\<close>.  Only the consumer
  can free space; run on its own the loop returns at once or never (\<open>None\<close>).
  The payload is an object in memory, so its size is below \<open>2 ^ 63\<close> and the 64-bit
  sums of the source are the sums of natural numbers.
\<close>

partial_function (option) wait_write_space :: "jack_ringbuffer \<Rightarrow> nat \<Rightarrow> unit option" where
  "wait_write_space rb n =
     (if jack_ringbuffer_write_space rb < n then wait_write_space rb n else Some ())"

definition jack_queue_write :: "jack_queue \<Rightarrow> byte list \<Rightarrow> (error_code \<times> jack_queue) option" where
  "jack_queue_write q bytes =
     (let sz = length bytes
      in if sz + size_sz > ringbuffer_space q then Some (Some no_buffer_space, q)
         else
           (case wait_write_space (ringbuffer q) (sz + size_sz) of
              None \<Rightarrow> None
            | Some _ \<Rightarrow>
                (let rb1 = snd (jack_ringbuffer_write (ringbuffer q) (encode_int32 sz));
                     rb2 = snd (jack_ringbuffer_write rb1 bytes)
                 in Some (None, q\<lparr>ringbuffer := rb2\<rparr>))))"

text \<open>
  \<open>jack_queue::read\<close> and its drain loop.  The sink is the host's MIDI buffer of the cycle:
  \<open>reserve events n\<close> tells whether \<open>jack_midi_event_reserve\<close> grants \<open>n\<close> bytes (at
  frame 0) when the buffer already holds \<open>events\<close>.  A granted event receives the
  payload; a refused one is skipped in the ring.
\<close>

function read_loop ::
  "(byte list list \<Rightarrow> nat \<Rightarrow> bool) \<Rightarrow> jack_ringbuffer \<Rightarrow> byte list list
     \<Rightarrow> jack_ringbuffer \<times> byte list list" where
  "read_loop reserve rb events =
     (let hdr = jack_ringbuffer_peek rb size_sz;
          sz = decode_int32 hdr
      in if length hdr = size_sz
            \<and> jack_ringbuffer_read_space rb \<ge> (size_sz + to_size_t sz) mod 2 ^ 64
         then
           (let rb1 = jack_ringbuffer_read_advance rb size_sz
            in if reserve events (to_size_t sz)
               then read_loop reserve (snd (jack_ringbuffer_read rb1 (to_size_t sz)))
                      (events @ [fst (jack_ringbuffer_read rb1 (to_size_t sz))])
               else read_loop reserve (jack_ringbuffer_read_advance rb1 (to_size_t sz)) events)
         else (rb, events))"
  by pat_completeness auto
termination
  by (relation "measure (\<lambda>(reserve, rb, events). length (rb_bytes rb))")
     (auto simp: jack_ringbuffer_peek_def jack_ringbuffer_read_def
        jack_ringbuffer_read_advance_def size_sz_def)

declare read_loop.simps [simp del]

definition jack_queue_read :: "jack_queue \<Rightarrow> (byte list list \<Rightarrow> nat \<Rightarrow> bool) \<Rightarrow> byte list list
                      \<Rightarrow> jack_queue \<times> byte list list" where
  "jack_queue_read q reserve events =
     (let (rb, events') = read_loop reserve (ringbuffer q) events
      in (q\<lparr>ringbuffer := rb\<rparr>, events'))"

section \<open>JACK output: \<open>jack_helpers\<close> and the queued variant\<close>

subsection \<open>The client-release handshake\<close>

text \<open>
  Modelled from the spec: \<open>semaphore_pair_lock\<close> (\<open>libremidi/detail/semaphore.hpp\<close>)
  is not among the sources.  It is two counting semaphores, client-ready and
  release-ack, both initially 0.  \<open>prepare_release_client\<close> posts client-ready and
  then waits on release-ack; \<open>check_client_released\<close> tries to acquire client-ready
  without blocking and, if it succeeds, posts release-ack.  The wait is time-bounded
  (the spec forbids it to wait indefinitely): it returns when it acquires
  release-ack, or when its bound has passed, and tells which.  Time is not part of
  the model; whether the bound has passed is an input, \<open>elapsed\<close>.  While neither
  holds the wait has not returned (\<open>None\<close>).
\<close>

record semaphore_pair_lock =
  client_ready :: nat
  release_ack :: nat

definition post_client_ready :: "semaphore_pair_lock \<Rightarrow> semaphore_pair_lock" where
  "post_client_ready l = l\<lparr>client_ready := client_ready l + 1\<rparr>"

definition wait_release_ack ::
  "bool \<Rightarrow> semaphore_pair_lock \<Rightarrow> (bool \<times> semaphore_pair_lock) option" where
  "wait_release_ack elapsed l =
     (if release_ack l > 0 then Some (True, l\<lparr>release_ack := release_ack l - 1\<rparr>)
      else if elapsed then Some (False, l)
      else None)"

definition check_client_released :: "semaphore_pair_lock \<Rightarrow> semaphore_pair_lock" where
  "check_client_released l =
     (if client_ready l > 0
      then l\<lparr>client_ready := client_ready l - 1, release_ack := release_ack l + 1\<rparr>
      else l)"

text \<open>
  Modelled from the spec: \<open>prepare_release_client\<close> as the user thread runs it when
  no callback cycle falls between its post and the end of its wait.  The wait ends
  with a release-ack that was already there, or else by its bound.
\<close>

definition prepare_release_client :: "semaphore_pair_lock \<Rightarrow> bool \<times> semaphore_pair_lock" where
  "prepare_release_client l =
     (let l1 = post_client_ready l
      in if release_ack l1 > 0 then (True, l1\<lparr>release_ack := release_ack l1 - 1\<rparr>)
         else (False, l1))"

subsection \<open>\<open>jack_helpers\<close>\<close>

text \<open>
  Pointers are optional handles, \<open>None\<close> for \<open>nullptr\<close>.  \<open>jack_port\<close> is the value
  held by the shared atomic slot \<open>port.impl\<close>.
\<close>

record jack_helpers =
  jack_client :: "nat option"
  jack_port :: "nat option"
  this_instance :: int
  thread_lock :: semaphore_pair_lock

text \<open>The JACK server is a parameter, as the CoreMIDI server is.\<close>

record 'h jack_host =
  jack_port_unregister :: "nat option \<Rightarrow> nat \<Rightarrow> 'h \<Rightarrow> int \<times> 'h"

text \<open>
  The three operations of \<open>do_close_port\<close> that touch state shared with the realtime
  thread or held by the host.  Each acts on the object and the host state, and each
  leaves its own entry in a record of what was done, in the order it was done:
  the store into the port slot (\<open>port_handle::operator=\<close>), the handshake, and the
  host's \<open>jack_port_unregister\<close>.
\<close>

datatype close_action =
    Store_port "nat option"
  | Prepare_release_client
  | Port_unregister "nat option" nat

definition port_assign ::
  "nat option \<Rightarrow> 'a jack_helpers_scheme \<times> 'h \<times> close_action list
     \<Rightarrow> 'a jack_helpers_scheme \<times> 'h \<times> close_action list" where
  "port_assign v w =
     (case w of (self, h, done_so_far) \<Rightarrow>
        (self\<lparr>jack_port := v\<rparr>, h, done_so_far @ [Store_port v]))"

definition release_client ::
  "'a jack_helpers_scheme \<times> 'h \<times> close_action list
     \<Rightarrow> 'a jack_helpers_scheme \<times> 'h \<times> close_action list" where
  "release_client w =
     (case w of (self, h, done_so_far) \<Rightarrow>
        (self\<lparr>thread_lock := snd (prepare_release_client (thread_lock self))\<rparr>, h,
         done_so_far @ [Prepare_release_client]))"

definition port_unregister ::
  "'h jack_host \<Rightarrow> nat option \<Rightarrow> nat \<Rightarrow> 'a jack_helpers_scheme \<times> 'h \<times> close_action list
     \<Rightarrow> int \<times> 'a jack_helpers_scheme \<times> 'h \<times> close_action list" where
  "port_unregister J c p w =
     (case w of (self, h, done_so_far) \<Rightarrow>
        (let (err, h') = jack_port_unregister J c p h
         in (err, self, h', done_so_far @ [Port_unregister c p])))"

text \<open>
  \<open>do_close_port\<close>: nothing when no port is open; otherwise the port is loaded, the
  slot is stored null, the handshake is run, and the loaded port is unregistered.
  The result carries the record of the operations, which starts empty.
\<close>

definition do_close_port ::
  "'h jack_host \<Rightarrow> 'a jack_helpers_scheme \<Rightarrow> 'h
     \<Rightarrow> error_code \<times> 'a jack_helpers_scheme \<times> 'h \<times> close_action list" where
  "do_close_port J self h =
     (case jack_port self of
        None \<Rightarrow> (None, self, h, [])
      | Some port_ptr \<Rightarrow>
          (let w1 = port_assign None (self, h, []);
               w2 = release_client w1;
               (err, w3) = port_unregister J (jack_client (fst w2)) port_ptr w2
           in (from_errc err, w3)))"


record midi_out_jack_queued = jack_helpers +
  queue :: jack_queue

definition queued_close_port ::
  "'h jack_host \<Rightarrow> midi_out_jack_queued \<Rightarrow> 'h
     \<Rightarrow> error_code \<times> midi_out_jack_queued \<times> 'h \<times> close_action list" where
  "queued_close_port J self h = do_close_port J self h"

definition queued_send_message ::
  "midi_out_jack_queued \<Rightarrow> byte list \<Rightarrow> (error_code \<times> midi_out_jack_queued) option" where
  "queued_send_message self message =
     map_option (\<lambda>(r, q). (r, self\<lparr>queue := q\<rparr>)) (jack_queue_write (queue self) message)"

text \<open>
  \<open>process\<close> of the queued variant: the cycle's buffer is cleared, then the queue is
  drained into it.
\<close>

definition queued_process ::
  "midi_out_jack_queued \<Rightarrow> (byte list list \<Rightarrow> nat \<Rightarrow> bool)
     \<Rightarrow> midi_out_jack_queued \<times> byte list list" where
  "queued_process self reserve =
     (let (q, events) = jack_queue_read (queue self) reserve []
      in (self\<lparr>queue := q\<rparr>, events))"

section \<open>Example objects\<close>

definition core_idle :: midi_out_core where
  "core_idle = \<lparr>core_client = 1, core_endpoint = 0, core_port = 0, destinationId = 0\<rparr>"

definition core_connected :: midi_out_core where
  "core_connected = \<lparr>core_client = 1, core_endpoint = 5, core_port = 6, destinationId = 7\<rparr>"

definition queued64 :: midi_out_jack_queued where
  "queued64 = \<lparr>jack_client = Some 1, jack_port = Some 2, this_instance = 1,
               thread_lock = \<lparr>client_ready = 0, release_ack = 0\<rparr>,
               queue = jack_queue_new 64\<rparr>"

definition long_sysex :: "byte list" where
  "long_sysex = 0xF0 # replicate 130000 0"

definition huge_sysex :: "byte list" where
  "huge_sysex = 0xF0 # replicate (4294967296 + 65535) 0"

section \<open>The ring queue between its two threads\<close>

text \<open>
  The bytes a sequence of payloads occupies in the ring, and what a sink keeps of a
  sequence of payloads offered to it one after the other.
\<close>

definition frame :: "byte list \<Rightarrow> byte list" where
  "frame w = encode_int32 (length w) @ w"

definition frames :: "byte list list \<Rightarrow> byte list" where
  "frames ws = concat (map frame ws)"

fun sink_run ::
  "(byte list list \<Rightarrow> nat \<Rightarrow> bool) \<Rightarrow> byte list list \<Rightarrow> byte list list \<Rightarrow> byte list list" where
  "sink_run reserve events [] = events"
| "sink_run reserve events (w # ws) =
     sink_run reserve (if reserve events (length w) then events @ [w] else events) ws"

text \<open>A sequence of writes, each of which has to return success.\<close>

fun write_all :: "jack_queue \<Rightarrow> byte list list \<Rightarrow> jack_queue option" where
  "write_all q [] = Some q"
| "write_all q (w # ws) =
     (case jack_queue_write q w of
        Some (None, q') \<Rightarrow> write_all q' ws
      | _ \<Rightarrow> None)"

text \<open>
  One producer and one consumer on the same queue.  The producer's \<open>write\<close> reaches
  the ring in two calls of \<open>jack_ringbuffer_write\<close>, the length and then the payload,
  and the consumer may run between them; \<open>write_length\<close> is enabled once the checks
  and the wait of \<open>write\<close> have passed.  The consumer's step is one \<open>process\<close> cycle: a
  drain into the cleared buffer of a sink of its choice, taken as one step.
  \<open>started\<close> and \<open>emitted\<close> record the payloads whose write has begun and the
  events handed to sinks.
\<close>

datatype producer = Producer_idle | Wrote_length "byte list"

record spsc =
  shared_queue :: jack_queue
  producer_at :: producer
  started :: "byte list list"
  emitted :: "byte list list"

inductive spsc_step :: "spsc \<Rightarrow> spsc \<Rightarrow> bool" where
  write_length:
    "producer_at s = Producer_idle \<Longrightarrow>
     length w + size_sz \<le> ringbuffer_space (shared_queue s) \<Longrightarrow>
     length w + size_sz \<le> jack_ringbuffer_write_space (ringbuffer (shared_queue s)) \<Longrightarrow>
     spsc_step s
       (s\<lparr>shared_queue := (shared_queue s)\<lparr>ringbuffer :=
              snd (jack_ringbuffer_write (ringbuffer (shared_queue s))
                     (encode_int32 (length w)))\<rparr>,
          producer_at := Wrote_length w,
          started := started s @ [w]\<rparr>)"
| write_payload:
    "producer_at s = Wrote_length w \<Longrightarrow>
     spsc_step s
       (s\<lparr>shared_queue := (shared_queue s)\<lparr>ringbuffer :=
              snd (jack_ringbuffer_write (ringbuffer (shared_queue s)) w)\<rparr>,
          producer_at := Producer_idle\<rparr>)"
| drain:
    "spsc_step s
       (s\<lparr>shared_queue := fst (jack_queue_read (shared_queue s) reserve []),
          emitted := emitted s @ snd (jack_queue_read (shared_queue s) reserve [])\<rparr>)"

inductive spsc_run :: "jack_queue \<Rightarrow> spsc \<Rightarrow> bool" for q0 where
  start:
    "spsc_run q0 \<lparr>shared_queue = q0, producer_at = Producer_idle, started = [], emitted = []\<rparr>"
| step:
    "spsc_run q0 s \<Longrightarrow> spsc_step s s' \<Longrightarrow> spsc_run q0 s'"

text \<open>The payload bytes the producer still owes to the frame it has begun.\<close>

definition inflight :: "spsc \<Rightarrow> byte list" where
  "inflight s = (case producer_at s of Producer_idle \<Rightarrow> [] | Wrote_length w \<Rightarrow> w)"

text \<open>
  The test at the head of the drain loop, on the readable bytes: nothing is consumed
  when fewer than four bytes are readable or the announced payload is not all there.
\<close>

definition stuck :: "byte list \<Rightarrow> bool" where
  "stuck bs \<longleftrightarrow> \<not> (length (take size_sz bs) = size_sz
      \<and> length bs \<ge> (size_sz + to_size_t (decode_int32 (take size_sz bs))) mod 2 ^ 64)"

text \<open>
  Two states of the system on a queue of size 64: the start, and the state after
  the producer has written the length of a three-byte message and not yet its payload.
\<close>

definition spsc_start64 :: spsc where
  "spsc_start64 =
     \<lparr>shared_queue = jack_queue_new 64, producer_at = Producer_idle,
      started = [], emitted = []\<rparr>"

definition spsc_inflight64 :: spsc where
  "spsc_inflight64 =
     \<lparr>shared_queue = \<lparr>ringbuffer = \<lparr>rb_size = 64, rb_bytes = [3, 0, 0, 0]\<rparr>,
                       ringbuffer_space = 63\<rparr>,
      producer_at = Wrote_length [0x90, 0x3C, 0x7F],
      started = [[0x90, 0x3C, 0x7F]], emitted = []\<rparr>"

text \<open>
  The invariant of the interleaving: sizes do not change, the payload in flight still
  fits, every payload is shorter than \<open>2 ^ 31\<close>, the payload in flight is the last
  one started, and the readable bytes completed by the payload in flight are the
  frames of the payloads started and not yet consumed.
\<close>

definition spsc_inv :: "jack_queue \<Rightarrow> spsc \<Rightarrow> bool" where
  "spsc_inv q0 s \<longleftrightarrow>
     rb_size (ringbuffer (shared_queue s)) = rb_size (ringbuffer q0)
   \<and> ringbuffer_space (shared_queue s) = ringbuffer_space q0
   \<and> length (rb_bytes (ringbuffer (shared_queue s))) + length (inflight s)
        \<le> rb_size (ringbuffer q0) - 1
   \<and> (\<forall>w \<in> set (started s). length w < 2 ^ 31)
   \<and> (\<forall>w. producer_at s = Wrote_length w \<longrightarrow> started s \<noteq> [] \<and> last (started s) = w)
   \<and> (\<exists>consumed pending.
         started s = consumed @ pending
       \<and> subseq (emitted s) consumed
       \<and> rb_bytes (ringbuffer (shared_queue s)) @ inflight s = frames pending)"

section \<open>Closing a JACK port under the realtime callback\<close>

text \<open>
  Where the realtime callback installed by \<open>connect\<close> stands within a cycle: not
  running; past its test of the port slot and about to call \<open>process\<close>; inside
  \<open>process\<close>, holding the buffer of the port that \<open>process\<close> loaded from the slot;
  about to call \<open>check_client_released\<close>.
\<close>

datatype rt_pc = Rt_idle | Rt_entered | Rt_processing "nat option" | Rt_check

text \<open>
  The state the user thread and the realtime thread share, with the ports the host
  has registered.  \<open>closing\<close> is what remains to be done of the \<open>do_close_port\<close> in
  progress, \<open>posted\<close> tells that its \<open>prepare_release_client\<close> has posted and now
  waits, and \<open>timed_out\<close> that some wait so far has ended by its time bound and not by
  an acknowledgement.
\<close>

record jack_system =
  slot :: "nat option"
  shared_lock :: semaphore_pair_lock
  registered :: "nat set"
  closing :: "close_action list"
  posted :: bool
  timed_out :: bool
  rt :: rt_pc

definition jack_system_init :: jack_system where
  "jack_system_init =
     \<lparr>slot = None, shared_lock = \<lparr>client_ready = 0, release_ack = 0\<rparr>,
      registered = {}, closing = [], posted = False, timed_out = False, rt = Rt_idle\<rparr>"

text \<open>
  The steps of the two threads.  The user thread opens a port when none is open
  (\<open>create_local_port\<close>: register, then store), starts \<open>do_close_port\<close>, and carries
  out, one by one and in their order, the operations that \<open>do_close_port\<close> performs
  on an object whose port is the one in the slot.  Its wait ends by acquiring
  release-ack or by its time bound, which may have passed or not at any moment.  The
  callback is the one \<open>connect\<close> installs; \<open>ctx\<close> tells which: with an external
  context it skips \<open>process\<close> on a null port and still calls
  \<open>check_client_released\<close>, with a client of its own it returns at once on a null
  port.  \<open>process\<close> loads the slot again for \<open>jack_port_get_buffer\<close>.
\<close>

inductive jack_step :: "bool \<Rightarrow> jack_system \<Rightarrow> jack_system \<Rightarrow> bool" for ctx where
  open_port:
    "closing s = [] \<Longrightarrow> slot s = None \<Longrightarrow> p \<notin> registered s \<Longrightarrow>
     jack_step ctx s (s\<lparr>slot := Some p, registered := insert p (registered s)\<rparr>)"
| close_begin:
    "closing s = [] \<Longrightarrow> jack_port (self :: jack_helpers) = slot s \<Longrightarrow>
     jack_step ctx s
       (s\<lparr>closing := snd (snd (snd (do_close_port (J :: unit jack_host) self h)))\<rparr>)"
| store_port:
    "closing s = Store_port v # rest \<Longrightarrow>
     jack_step ctx s (s\<lparr>slot := v, closing := rest\<rparr>)"
| release_post:
    "closing s = Prepare_release_client # rest \<Longrightarrow> \<not> posted s \<Longrightarrow>
     jack_step ctx s (s\<lparr>shared_lock := post_client_ready (shared_lock s), posted := True\<rparr>)"
| release_return:
    "closing s = Prepare_release_client # rest \<Longrightarrow> posted s \<Longrightarrow>
     wait_release_ack elapsed (shared_lock s) = Some (acked, l) \<Longrightarrow>
     jack_step ctx s
       (s\<lparr>shared_lock := l, posted := False, closing := rest,
          timed_out := (timed_out s \<or> \<not> acked)\<rparr>)"
| unregister:
    "closing s = Port_unregister c p # rest \<Longrightarrow>
     jack_step ctx s (s\<lparr>registered := registered s - {p}, closing := rest\<rparr>)"
| cycle_enter:
    "rt s = Rt_idle \<Longrightarrow> slot s \<noteq> None \<Longrightarrow>
     jack_step ctx s (s\<lparr>rt := Rt_entered\<rparr>)"
| cycle_skip:
    "rt s = Rt_idle \<Longrightarrow> slot s = None \<Longrightarrow>
     jack_step ctx s (s\<lparr>rt := (if ctx then Rt_check else Rt_idle)\<rparr>)"
| process_begin:
    "rt s = Rt_entered \<Longrightarrow>
     jack_step ctx s (s\<lparr>rt := Rt_processing (slot s)\<rparr>)"
| process_end:
    "rt s = Rt_processing b \<Longrightarrow>
     jack_step ctx s (s\<lparr>rt := Rt_check\<rparr>)"
| cycle_check:
    "rt s = Rt_check \<Longrightarrow>
     jack_step ctx s (s\<lparr>shared_lock := check_client_released (shared_lock s), rt := Rt_idle\<rparr>)"

inductive jack_run :: "bool \<Rightarrow> jack_system \<Rightarrow> bool" for ctx where
  start: "jack_run ctx jack_system_init"
| step: "jack_run ctx s \<Longrightarrow> jack_step ctx s s' \<Longrightarrow> jack_run ctx s'"



text \<open>
  With a client of its own, a wait that begins while the callback is between cycles:
  the slot is null, client-ready is posted, and no cycle gets as far as
  \<open>check_client_released\<close>.
\<close>

definition idle_wait :: "jack_system \<Rightarrow> bool" where
  "idle_wait s \<longleftrightarrow>
     slot s = None \<and> posted s \<and> rt s = Rt_idle \<and> release_ack (shared_lock s) = 0
   \<and> (\<exists>rest. closing s = Prepare_release_client # rest)"

text \<open>A JACK server that unregisters without error.\<close>

definition jack_host_ok :: "unit jack_host" where
  "jack_host_ok = \<lparr>jack_port_unregister = (\<lambda>c p h. (0, h))\<rparr>"

text \<open>
  An object with an open port, and three states of the system.  In the first
  \<open>do_close_port\<close> is about to unregister that port after an acknowledged handshake.
  In the second the wait has ended by its time bound while the callback was inside
  \<open>process\<close>, and the port has been unregistered.  In the third the callback, having
  passed its test before the store, runs \<open>process\<close> on the null slot.
\<close>

definition helpers_open :: jack_helpers where
  "helpers_open = \<lparr>jack_client = Some 1, jack_port = Some 2, this_instance = 1,
                    thread_lock = \<lparr>client_ready = 0, release_ack = 0\<rparr>\<rparr>"



definition jack_null_process_example :: jack_system where
  "jack_null_process_example =
     \<lparr>slot = None, shared_lock = \<lparr>client_ready = 0, release_ack = 0\<rparr>,
      registered = {2}, closing = [Prepare_release_client, Port_unregister (Some 1) 2],
      posted = False, timed_out = False, rt = Rt_processing None\<rparr>"

text \<open>
  A queued object whose ring holds one frame of 56 payload bytes that no cycle has
  drained: 60 of its 63 usable bytes are taken.
\<close>

definition queued64_busy :: midi_out_jack_queued where
  "queued64_busy =
     queued64\<lparr>queue := (jack_queue_new 64)\<lparr>ringbuffer :=
        \<lparr>rb_size = 64, rb_bytes = frame (replicate 56 0)\<rparr>\<rparr>\<rparr>"


section \<open>PipeWire: the graph of \<open>pipewire_context\<close>\<close>

datatype pw_direction = SPA_DIRECTION_INPUT | SPA_DIRECTION_OUTPUT

record port_info =
  info_id :: "32 word"
  format :: string
  port_name :: string
  port_alias :: string
  object_path :: string
  node_id :: string
  port_id :: string
  physical :: bool
  terminal :: bool
  monitor :: bool
  direction :: pw_direction

record node =
  inputs :: "port_info list"
  outputs :: "port_info list"

text \<open>\<open>hash_map<uint32_t, node>\<close> is a finite map from 32-bit keys to nodes.\<close>

type_synonym node_map = "32 word \<rightharpoonup> node"

record graph =
  physical_audio :: node_map
  physical_midi :: node_map
  software_audio :: node_map
  software_midi :: node_map

definition empty_graph :: graph where
  "empty_graph =
     \<lparr>physical_audio = Map.empty, physical_midi = Map.empty,
      software_audio = Map.empty, software_midi = Map.empty\<rparr>"

text \<open>\<open>graph::remove_port\<close>: \<open>std::erase_if\<close> on both vectors of every node of every map.\<close>

definition erase_port :: "32 word \<Rightarrow> node \<Rightarrow> node" where
  "erase_port i n =
     n\<lparr>inputs := filter (\<lambda>p. info_id p \<noteq> i) (inputs n),
       outputs := filter (\<lambda>p. info_id p \<noteq> i) (outputs n)\<rparr>"

definition remove_port :: "graph \<Rightarrow> 32 word \<Rightarrow> graph" where
  "remove_port g i =
     \<lparr>physical_audio = map_option (erase_port i) \<circ> physical_audio g,
      physical_midi = map_option (erase_port i) \<circ> physical_midi g,
      software_audio = map_option (erase_port i) \<circ> software_audio g,
      software_midi = map_option (erase_port i) \<circ> software_midi g\<rparr>"

text \<open>
  \<open>std::stoul\<close> in base 10: leading white space, an optional sign, then digits up to
  the first other character.  No digit throws \<open>std::invalid_argument\<close>, a value beyond
  64 bits \<open>std::out_of_range\<close>; a minus sign negates in \<open>unsigned long\<close>.
\<close>

datatype cxx_exception = Invalid_argument_thrown | Out_of_range_thrown

definition is_space :: "char \<Rightarrow> bool" where
  "is_space c \<longleftrightarrow> c \<in> set [CHR '' '', CHR 0x09, CHR 0x0A, CHR 0x0B, CHR 0x0C, CHR 0x0D]"

definition is_digit :: "char \<Rightarrow> bool" where
  "is_digit c \<longleftrightarrow> 48 \<le> (of_char c :: nat) \<and> (of_char c :: nat) \<le> 57"

definition digits_value :: "string \<Rightarrow> nat" where
  "digits_value ds = foldl (\<lambda>v c. 10 * v + (of_char c - 48)) 0 ds"

definition stoul :: "string \<Rightarrow> cxx_exception + nat" where
  "stoul str =
     (let s1 = dropWhile is_space str;
          negative = (s1 \<noteq> [] \<and> hd s1 = CHR ''-'');
          s2 = (if s1 \<noteq> [] \<and> (hd s1 = CHR ''-'' \<or> hd s1 = CHR ''+'') then tl s1 else s1);
          ds = takeWhile is_digit s2
      in if ds = [] then Inl Invalid_argument_thrown
         else if digits_value ds \<ge> 2 ^ 64 then Inl Out_of_range_thrown
         else Inr (if negative then (2 ^ 64 - digits_value ds) mod 2 ^ 64 else digits_value ds))"

text \<open>
  \<open>register_port\<close>.  First the loop over the property dictionary, one item at a
  time; a later item overwrites an earlier string, a flag once set stays set.
\<close>

definition parse_item :: "port_info \<Rightarrow> string \<times> string \<Rightarrow> port_info" where
  "parse_item p item =
     (let k = fst item; v = snd item
      in if k = ''format.dsp'' then p\<lparr>format := v\<rparr>
         else if k = ''port.name'' then p\<lparr>port_name := v\<rparr>
         else if k = ''port.alias'' then p\<lparr>port_alias := v\<rparr>
         else if k = ''object.path'' then p\<lparr>object_path := v\<rparr>
         else if k = ''port.id'' then p\<lparr>port_id := v\<rparr>
         else if k = ''node.id'' then p\<lparr>node_id := v\<rparr>
         else if k = ''port.physical'' \<and> v = ''true'' then p\<lparr>physical := True\<rparr>
         else if k = ''port.terminal'' \<and> v = ''true'' then p\<lparr>terminal := True\<rparr>
         else if k = ''port.monitor'' \<and> v = ''true'' then p\<lparr>monitor := True\<rparr>
         else if k = ''port.direction''
           then (if v = ''out'' then p\<lparr>direction := SPA_DIRECTION_OUTPUT\<rparr>
                 else p\<lparr>direction := SPA_DIRECTION_INPUT\<rparr>)
         else p)"

definition new_port_info :: "32 word \<Rightarrow> port_info" where
  "new_port_info i =
     \<lparr>info_id = i, format = [], port_name = [], port_alias = [], object_path = [],
      node_id = [], port_id = [], physical = False, terminal = False, monitor = False,
      direction = SPA_DIRECTION_INPUT\<rparr>"

text \<open>
  \<open>map[nid].outputs.push_back (p)\<close> and \<open>map[nid].inputs.push_back (p)\<close>: the index
  operator inserts an empty node for a new key.
\<close>

definition node_at :: "node_map \<Rightarrow> 32 word \<Rightarrow> node" where
  "node_at m k = (case m k of None \<Rightarrow> \<lparr>inputs = [], outputs = []\<rparr> | Some n \<Rightarrow> n)"

definition push_port :: "node_map \<Rightarrow> 32 word \<Rightarrow> port_info \<Rightarrow> node_map" where
  "push_port m k p =
     (if direction p = SPA_DIRECTION_OUTPUT
      then m(k \<mapsto> (node_at m k)\<lparr>outputs := outputs (node_at m k) @ [p]\<rparr>)
      else m(k \<mapsto> (node_at m k)\<lparr>inputs := inputs (node_at m k) @ [p]\<rparr>))"

definition register_port :: "graph \<Rightarrow> 32 word \<Rightarrow> (string \<times> string) list \<Rightarrow> cxx_exception + graph" where
  "register_port g i props =
     (let p = foldl parse_item (new_port_info i) props
      in if node_id p = [] then Inr g
         else
           (case stoul (node_id p) of
              Inl e \<Rightarrow> Inl e
            | Inr n \<Rightarrow>
                (let nid = (of_nat n :: 32 word)
                 in if physical p
                    then (if sublist ''audio'' (format p)
                          then Inr (g\<lparr>physical_audio := push_port (physical_audio g) nid p\<rparr>)
                          else if sublist ''midi'' (format p)
                          then Inr (g\<lparr>physical_midi := push_port (physical_midi g) nid p\<rparr>)
                          else Inr g)
                    else (if sublist ''audio'' (format p)
                          then Inr (g\<lparr>software_audio := push_port (software_audio g) nid p\<rparr>)
                          else if sublist ''midi'' (format p)
                          then Inr (g\<lparr>software_midi := push_port (software_midi g) nid p\<rparr>)
                          else Inr g))))"

text \<open>
  The listeners of the context: the registry events \<open>global\<close> (with the proxy the
  host returns from \<open>pw_registry_bind\<close>) and \<open>global_remove\<close>, and the port event
  \<open>info\<close>, which calls \<open>register_port\<close>.
\<close>

record listened_port =
  listened_id :: "32 word"
  listened_proxy :: nat

record pipewire_context =
  port_listener :: "listened_port list"
  current_graph :: graph

definition pipewire_context_init :: pipewire_context where
  "pipewire_context_init = \<lparr>port_listener = [], current_graph = empty_graph\<rparr>"

datatype pw_event =
    Global "32 word" string nat
  | Global_remove "32 word"
  | Port_info "32 word" "(string \<times> string) list"

definition PW_TYPE_INTERFACE_Port :: string where
  "PW_TYPE_INTERFACE_Port = ''PipeWire:Interface:Port''"

fun erase_first :: "32 word \<Rightarrow> listened_port list \<Rightarrow> listened_port list" where
  "erase_first i [] = []"
| "erase_first i (l # ls) = (if listened_id l = i then ls else l # erase_first i ls)"

fun handle_event :: "pipewire_context \<Rightarrow> pw_event \<Rightarrow> cxx_exception + pipewire_context" where
  "handle_event c (Global i tp proxy) =
     (if tp = PW_TYPE_INTERFACE_Port
      then Inr (c\<lparr>port_listener :=
                    port_listener c @ [\<lparr>listened_id = i, listened_proxy = proxy\<rparr>]\<rparr>)
      else Inr c)"
| "handle_event c (Global_remove i) =
     Inr (c\<lparr>current_graph := remove_port (current_graph c) i,
            port_listener := erase_first i (port_listener c)\<rparr>)"
| "handle_event c (Port_info i props) =
     (case register_port (current_graph c) i props of
        Inl e \<Rightarrow> Inl e
      | Inr g \<Rightarrow> Inr (c\<lparr>current_graph := g\<rparr>))"

fun process_events :: "pipewire_context \<Rightarrow> pw_event list \<Rightarrow> cxx_exception + pipewire_context" where
  "process_events c [] = Inr c"
| "process_events c (e # es) =
     (case handle_event c e of
        Inl x \<Rightarrow> Inl x
      | Inr c' \<Rightarrow> process_events c' es)"

text \<open>
  A slot is a map, a node key and a direction vector; \<open>slot_ports\<close> is the vector
  found there, empty when the node is absent.
\<close>

datatype graph_map = Physical_audio | Physical_midi | Software_audio | Software_midi

fun select_map :: "graph_map \<Rightarrow> graph \<Rightarrow> node_map" where
  "select_map Physical_audio g = physical_audio g"
| "select_map Physical_midi g = physical_midi g"
| "select_map Software_audio g = software_audio g"
| "select_map Software_midi g = software_midi g"

fun slot_ports :: "graph \<Rightarrow> graph_map \<times> 32 word \<times> pw_direction \<Rightarrow> port_info list" where
  "slot_ports g (m, k, d) =
     (case select_map m g k of
        None \<Rightarrow> []
      | Some n \<Rightarrow> (if d = SPA_DIRECTION_OUTPUT then outputs n else inputs n))"

definition occurrences :: "graph \<Rightarrow> 32 word \<Rightarrow> graph_map \<times> 32 word \<times> pw_direction \<Rightarrow> nat" where
  "occurrences g i sl = length (filter (\<lambda>p. info_id p = i) (slot_ports g sl))"

definition in_graph :: "graph \<Rightarrow> 32 word \<Rightarrow> bool" where
  "in_graph g i \<longleftrightarrow> (\<exists>sl. occurrences g i sl > 0)"

text \<open>
  Event sequences in which no port is described twice: a port-info event never
  arrives for an id that already had one since the start or since its last
  \<open>global_remove\<close>.  The first argument lists the ids described and not yet removed.
\<close>

fun described_once :: "32 word list \<Rightarrow> pw_event list \<Rightarrow> bool" where
  "described_once seen [] \<longleftrightarrow> True"
| "described_once seen (Global i tp proxy # es) \<longleftrightarrow> described_once seen es"
| "described_once seen (Global_remove i # es) \<longleftrightarrow> described_once (removeAll i seen) es"
| "described_once seen (Port_info i props # es) \<longleftrightarrow>
     i \<notin> set seen \<and> described_once (i # seen) es"

definition unique_slots :: "graph \<Rightarrow> bool" where
  "unique_slots g \<longleftrightarrow>
     (\<forall>i sl1 sl2. occurrences g i sl1 > 0 \<and> occurrences g i sl2 > 0 \<longrightarrow> sl1 = sl2)
   \<and> (\<forall>i sl. occurrences g i sl \<le> 1)"

section \<open>PipeWire: the local port of \<open>pipewire_filter\<close>\<close>

text \<open>
  The filter and its port are host handles.  \<open>assert\<close> is taken as compiled in: a
  failed assertion ends the call.  The calls made to the host are returned in order.
\<close>

record pipewire_filter =
  filter_handle :: "nat option"
  filter_port :: "nat option"

datatype filter_call =
    Filter_add_port "nat option" pw_direction string
  | Filter_remove_port nat
  | Filter_update_properties "nat option" nat "(string \<times> string) list"

datatype assertion = Assertion_failed

definition PW_KEY_PORT_NAME :: string where
  "PW_KEY_PORT_NAME = ''port.name''"

text \<open>\<open>create_local_port\<close>; \<open>added\<close> is what \<open>filter_add_port\<close> returns.\<close>

definition create_local_port ::
  "pipewire_filter \<Rightarrow> string \<Rightarrow> pw_direction \<Rightarrow> nat option
     \<Rightarrow> assertion + pipewire_filter \<times> filter_call list" where
  "create_local_port f name d added =
     (case added of
        None \<Rightarrow> Inl Assertion_failed
      | Some p \<Rightarrow> Inr (f\<lparr>filter_port := Some p\<rparr>, [Filter_add_port (filter_handle f) d name]))"

definition filter_remove_port :: "pipewire_filter \<Rightarrow> assertion + pipewire_filter \<times> filter_call list" where
  "filter_remove_port f =
     (case filter_port f of
        None \<Rightarrow> Inl Assertion_failed
      | Some p \<Rightarrow> Inr (f\<lparr>filter_port := None\<rparr>, [Filter_remove_port p]))"

definition rename_port ::
  "pipewire_filter \<Rightarrow> string \<Rightarrow> assertion + pipewire_filter \<times> filter_call list" where
  "rename_port f name =
     (case filter_port f of
        None \<Rightarrow> Inl Assertion_failed
      | Some p \<Rightarrow>
          Inr (f\<lparr>filter_port := None\<rparr>,
               [Filter_update_properties (filter_handle f) p [(PW_KEY_PORT_NAME, name)]]))"

text \<open>
  Event sequences for port 7 of node 42: announced, described, removed; and
  described twice, the second time with \<open>port.physical\<close> set.
\<close>

definition port7_props :: "(string \<times> string) list" where
  "port7_props =
     [(''node.id'', ''42''), (''port.direction'', ''out''),
      (''format.dsp'', ''8 bit raw midi'')]"

definition port7_lifetime :: "pw_event list" where
  "port7_lifetime =
     [Global 7 PW_TYPE_INTERFACE_Port 1, Port_info 7 port7_props, Global_remove 7]"

definition port7_twice :: "pw_event list" where
  "port7_twice =
     [Global 7 PW_TYPE_INTERFACE_Port 1, Port_info 7 port7_props,
      Port_info 7 (port7_props @ [(''port.physical'', ''true'')])]"

definition filter_with_port :: pipewire_filter where
  "filter_with_port = \<lparr>filter_handle = Some 1, filter_port = Some 2\<rparr>"

section \<open>Properties of the CoreMIDI output\<close>

lemma deliver_None:
  assumes "deliver H self pkt calls h = (None, calls', h')"
  shows "calls' = calls
           @ (if core_endpoint self \<noteq> 0 then [MIDIReceived (core_endpoint self) pkt] else [])
           @ (if destinationId self \<noteq> 0
              then [MIDISend (core_port self) (destinationId self) pkt] else [])"
  using assms
  by (auto simp: deliver_def Let_def split: prod.splits if_splits)

lemma deliver_error:
  "fst (deliver H self pkt calls h) = None \<or> fst (deliver H self pkt calls h) = Some io_error"
  by (auto simp: deliver_def Let_def split: prod.splits if_splits)

lemma deliver_idle:
  "core_endpoint self = 0 \<Longrightarrow> destinationId self = 0 \<Longrightarrow>
   deliver H self pkt calls h = (None, calls, h)"
  by (simp add: deliver_def)

lemma send_packets_error:
  "fst (send_packets H self message nBytes listSize timestamp remainingBytes calls h)
     \<in> {None, Some message_size, Some io_error}"
proof (induction H self message nBytes listSize timestamp remainingBytes calls h
        rule: send_packets.induct)
  case (1 H self message nBytes listSize timestamp remainingBytes calls h)
  show ?case
  proof (cases "remainingBytes = 0")
    case True
    then show ?thesis by (simp add: send_packets.simps)
  next
    case False
    note unf = send_packets.simps[of H self message nBytes listSize timestamp remainingBytes calls h]
    let ?n = "if remainingBytes > 65535 then 65535 else remainingBytes"
    let ?bytes = "take ?n (drop (nBytes - remainingBytes) message)"
    show ?thesis
    proof (cases "MIDIPacketListAdd listSize timestamp ?bytes")
      case None
      with False show ?thesis by (simp add: unf Let_def)
    next
      case (Some pkt)
      obtain r calls' h' where d: "deliver H self pkt calls h = (r, calls', h')"
        by (cases "deliver H self pkt calls h") auto
      show ?thesis
      proof (cases r)
        case None
        with "1.IH"[OF False refl refl Some] d False Some show ?thesis
          by (simp add: unf Let_def)
      next
        case (Some e)
        with deliver_error[of H self pkt calls h] d have "e = io_error" by simp
        with False \<open>MIDIPacketListAdd listSize timestamp ?bytes = Some pkt\<close> d Some
        show ?thesis by (simp add: unf Let_def)
      qed
    qed
  qed
qed


lemma MIDIPacketListAdd_Some:
  "MIDIPacketListAdd listSize ts bytes = Some pkt \<Longrightarrow> pkt = \<lparr>timeStamp = ts, pkt_data = bytes\<rparr>"
  by (auto simp: MIDIPacketListAdd_def split: if_splits)

lemma fragment_append:
  assumes "n \<le> r" "r \<le> nBytes"
  shows "take n (drop (nBytes - r) message) @ take (r - n) (drop (nBytes - (r - n)) message)
           = take r (drop (nBytes - r) message)"
proof -
  have "nBytes - (r - n) = n + (nBytes - r)" using assms by simp
  then have "drop (nBytes - (r - n)) message = drop n (drop (nBytes - r) message)"
    by simp
  moreover have "r = n + (r - n)" using assms by simp
  ultimately show ?thesis
    by (metis take_add)
qed

lemma received_payloads_append [simp]:
  "received_payloads (xs @ ys) = received_payloads xs @ received_payloads ys"
  by (simp add: received_payloads_def)

lemma sent_payloads_append [simp]:
  "sent_payloads (xs @ ys) = sent_payloads xs @ sent_payloads ys"
  by (simp add: sent_payloads_def)

lemma received_payloads_Nil [simp]: "received_payloads [] = []"
  by (simp add: received_payloads_def)

lemma sent_payloads_Nil [simp]: "sent_payloads [] = []"
  by (simp add: sent_payloads_def)

lemma send_packets_trace:
  assumes "send_packets H self message nBytes listSize ts r calls h = (None, calls', h')"
    and "r \<le> nBytes"
  shows "\<exists>new. calls' = calls @ new
           \<and> (\<forall>c \<in> set new. timeStamp (call_packet c) = ts
                             \<and> length (pkt_data (call_packet c)) \<le> 65535)
           \<and> (core_endpoint self \<noteq> 0 \<longrightarrow>
                 concat (received_payloads new) = take r (drop (nBytes - r) message))
           \<and> (destinationId self \<noteq> 0 \<longrightarrow>
                 concat (sent_payloads new) = take r (drop (nBytes - r) message))"
  using assms
proof (induction H self message nBytes listSize ts r calls h arbitrary: calls' h'
        rule: send_packets.induct)
  case (1 H self message nBytes listSize ts r calls h)
  show ?case
  proof (cases "r = 0")
    case True
    with "1.prems" show ?thesis by (simp add: send_packets.simps)
  next
    case False
    note unf = send_packets.simps[of H self message nBytes listSize ts r calls h]
    define n where "n = (if r > 65535 then 65535 else r)"
    define bytes where "bytes = take n (drop (nBytes - r) message)"
    have n: "n \<le> r" "n \<le> 65535" by (auto simp: n_def)
    obtain pkt where add: "MIDIPacketListAdd listSize ts bytes = Some pkt"
      using "1.prems"(1) False
      by (cases "MIDIPacketListAdd listSize ts bytes") (auto simp: unf Let_def n_def bytes_def)
    then have pkt: "pkt = \<lparr>timeStamp = ts, pkt_data = bytes\<rparr>"
      by (rule MIDIPacketListAdd_Some)
    obtain calls1 h1 where d: "deliver H self pkt calls h = (None, calls1, h1)"
      using "1.prems"(1) False add
      by (cases "deliver H self pkt calls h")
         (auto simp: unf Let_def n_def bytes_def split: option.splits)
    have rest: "send_packets H self message nBytes listSize ts (r - n) calls1 h1 = (None, calls', h')"
      using "1.prems"(1) False add d by (simp add: unf Let_def n_def bytes_def)
    have "r - n \<le> nBytes" using "1.prems"(2) by simp
    have "\<exists>new. calls' = calls1 @ new
           \<and> (\<forall>c \<in> set new. timeStamp (call_packet c) = ts
                             \<and> length (pkt_data (call_packet c)) \<le> 65535)
           \<and> (core_endpoint self \<noteq> 0 \<longrightarrow>
                 concat (received_payloads new) = take (r - n) (drop (nBytes - (r - n)) message))
           \<and> (destinationId self \<noteq> 0 \<longrightarrow>
                 concat (sent_payloads new) = take (r - n) (drop (nBytes - (r - n)) message))"
      using "1.IH"[OF False refl refl add[unfolded bytes_def n_def] d[symmetric] refl refl
                      rest[unfolded n_def]] \<open>r - n \<le> nBytes\<close>
      unfolding n_def by blast
    then obtain new where new: "calls' = calls1 @ new"
      "\<forall>c \<in> set new. timeStamp (call_packet c) = ts
                             \<and> length (pkt_data (call_packet c)) \<le> 65535"
      "core_endpoint self \<noteq> 0 \<Longrightarrow>
                 concat (received_payloads new) = take (r - n) (drop (nBytes - (r - n)) message)"
      "destinationId self \<noteq> 0 \<Longrightarrow>
                 concat (sent_payloads new) = take (r - n) (drop (nBytes - (r - n)) message)"
      by blast
    define d1 where "d1 = (if core_endpoint self \<noteq> 0 then [MIDIReceived (core_endpoint self) pkt] else [])
           @ (if destinationId self \<noteq> 0
              then [MIDISend (core_port self) (destinationId self) pkt] else [])"
    have calls1: "calls1 = calls @ d1"
      using deliver_None[OF d] by (simp add: d1_def)
    have len: "length bytes \<le> 65535" using n by (simp add: bytes_def)
    have d1_ok: "\<forall>c \<in> set d1. timeStamp (call_packet c) = ts
                             \<and> length (pkt_data (call_packet c)) \<le> 65535"
      using len by (auto simp: d1_def pkt)
    have d1_recv: "core_endpoint self \<noteq> 0 \<Longrightarrow> concat (received_payloads d1) = bytes"
      by (simp add: d1_def pkt received_payloads_def)
    have d1_sent: "destinationId self \<noteq> 0 \<Longrightarrow> concat (sent_payloads d1) = bytes"
      by (simp add: d1_def pkt sent_payloads_def)
    have frag: "bytes @ take (r - n) (drop (nBytes - (r - n)) message)
                  = take r (drop (nBytes - r) message)"
      unfolding bytes_def using n(1) "1.prems"(2) by (rule fragment_append)
    show ?thesis
    proof (intro exI[of _ "d1 @ new"] conjI impI)
      show "calls' = calls @ d1 @ new" by (simp add: new(1) calls1)
      show "\<forall>c \<in> set (d1 @ new). timeStamp (call_packet c) = ts
                             \<and> length (pkt_data (call_packet c)) \<le> 65535"
        using d1_ok new(2) by auto
      show "concat (received_payloads (d1 @ new)) = take r (drop (nBytes - r) message)"
        if "core_endpoint self \<noteq> 0"
        using d1_recv[OF that] new(3)[OF that] frag by simp
      show "concat (sent_payloads (d1 @ new)) = take r (drop (nBytes - r) message)"
        if "destinationId self \<noteq> 0"
        using d1_sent[OF that] new(4)[OF that] frag by simp
    qed
  qed
qed


lemma send_message_trace:
  assumes "send_message H self b h = (None, calls, h')"
  shows "(\<forall>c \<in> set calls. timeStamp (call_packet c) = get_current_host_time H h
                             \<and> length (pkt_data (call_packet c)) \<le> 65535)
       \<and> (core_endpoint self \<noteq> 0 \<longrightarrow>
             concat (received_payloads calls) = take (length b mod 2 ^ 32) b)
       \<and> (destinationId self \<noteq> 0 \<longrightarrow>
             concat (sent_payloads calls) = take (length b mod 2 ^ 32) b)"
proof -
  define nBytes where "nBytes = length b mod 2 ^ 32"
  define listSize where "listSize = (if nBytes > 65535 then 65535 else nBytes) + 16"
  have run: "send_packets H self b nBytes listSize (get_current_host_time H h) nBytes [] h
               = (None, calls, h')"
    using assms
    by (auto simp: send_message_def Let_def nBytes_def listSize_def split: if_splits)
  from send_packets_trace[OF run order_refl] show ?thesis
    by (simp add: nBytes_def)
qed

lemma send_packets_idle:
  assumes "core_endpoint self = 0" "destinationId self = 0"
    and "r \<le> nBytes" "(if nBytes > 65535 then 65535 else nBytes) + 14 \<le> listSize"
  shows "send_packets H self message nBytes listSize ts r calls h = (None, calls, h)"
  using assms
proof (induction H self message nBytes listSize ts r calls h rule: send_packets.induct)
  case (1 H self message nBytes listSize ts r calls h)
  show ?case
  proof (cases "r = 0")
    case True
    then show ?thesis by (simp add: send_packets.simps)
  next
    case False
    note unf = send_packets.simps[of H self message nBytes listSize ts r calls h]
    define n where "n = (if r > 65535 then 65535 else r)"
    define bytes where "bytes = take n (drop (nBytes - r) message)"
    have "length bytes \<le> (if nBytes > 65535 then 65535 else nBytes)"
      using "1.prems"(3) by (auto simp: bytes_def n_def)
    then have add: "MIDIPacketListAdd listSize ts bytes = Some \<lparr>timeStamp = ts, pkt_data = bytes\<rparr>"
      using "1.prems"(4) by (auto simp: MIDIPacketListAdd_def)
    have d: "deliver H self \<lparr>timeStamp = ts, pkt_data = bytes\<rparr> calls h = (None, calls, h)"
      using "1.prems"(1,2) by (rule deliver_idle)
    have "r - n \<le> nBytes" using "1.prems"(3) by simp
    from "1.IH"[OF False refl refl add[unfolded bytes_def n_def] d[symmetric, unfolded bytes_def n_def] refl refl
           "1.prems"(1,2) this[unfolded n_def] "1.prems"(4)]
    show ?thesis
      using False add d by (simp add: unf Let_def n_def bytes_def)
  qed
qed

lemma send_packets_accepting:
  assumes "\<forall>e p x. fst (midi_received H e p x) = 0"
    and "\<forall>pt d p x. fst (midi_send H pt d p x) = 0"
    and "r \<le> nBytes" "(if nBytes > 65535 then 65535 else nBytes) + 14 \<le> listSize"
  shows "fst (send_packets H self message nBytes listSize ts r calls h) = None"
  using assms
proof (induction H self message nBytes listSize ts r calls h rule: send_packets.induct)
  case (1 H self message nBytes listSize ts r calls h)
  show ?case
  proof (cases "r = 0")
    case True
    then show ?thesis by (simp add: send_packets.simps)
  next
    case False
    note unf = send_packets.simps[of H self message nBytes listSize ts r calls h]
    define n where "n = (if r > 65535 then 65535 else r)"
    define bytes where "bytes = take n (drop (nBytes - r) message)"
    define pkt where "pkt = \<lparr>timeStamp = ts, pkt_data = bytes\<rparr>"
    have "length bytes \<le> (if nBytes > 65535 then 65535 else nBytes)"
      using "1.prems"(3) by (auto simp: bytes_def n_def)
    then have add: "MIDIPacketListAdd listSize ts bytes = Some pkt"
      using "1.prems"(4) by (auto simp: MIDIPacketListAdd_def pkt_def)
    have "fst (deliver H self pkt calls h) = None"
      using "1.prems"(1,2)
      by (auto simp: deliver_def Let_def split: prod.splits)
         (metis fst_conv)+
    then obtain calls1 h1 where d: "deliver H self pkt calls h = (None, calls1, h1)"
      by (cases "deliver H self pkt calls h") auto
    have "r - n \<le> nBytes" using "1.prems"(3) by simp
    from "1.IH"[OF False refl refl add[unfolded bytes_def n_def] d[symmetric] refl refl
           "1.prems"(1,2) this[unfolded n_def] "1.prems"(4)]
    show ?thesis
      using False add d by (simp add: unf Let_def n_def bytes_def)
  qed
qed

lemma send_message_accepting:
  assumes "\<forall>e p x. fst (midi_received H e p x) = 0"
    and "\<forall>pt d p x. fst (midi_send H pt d p x) = 0"
    and "length b mod 2 ^ 32 \<noteq> 0" "b ! 0 = 0xF0 \<or> length b mod 2 ^ 32 \<le> 3"
  shows "fst (send_message H self b h) = None"
  using assms(3,4) send_packets_accepting[OF assms(1,2)]
  by (auto simp: send_message_def Let_def)



subsection \<open>First facts about the queue, and the send validation\<close>

text \<open>A queue of size 64, and the wait of \<open>write\<close> when there is room.\<close>

lemma ringbuffer_power_64: "ringbuffer_power (Suc 0) 64 = 6"
  by (simp add: ringbuffer_power.simps)

lemma wait_write_space_enough:
  "n \<le> jack_ringbuffer_write_space rb \<Longrightarrow> wait_write_space rb n = Some ()"
  by (subst wait_write_space.simps) simp

lemma queue64: "jack_queue_new 64 = \<lparr>ringbuffer = \<lparr>rb_size = 64, rb_bytes = []\<rparr>, ringbuffer_space = 63\<rparr>"
  by (simp add: jack_queue_new_def jack_ringbuffer_create_def ringbuffer_power_64
      jack_ringbuffer_write_space_def)

lemma jack_queue_write_result:
  "jack_queue_write q b = Some (r, q') \<Longrightarrow> r = None \<or> r = Some no_buffer_space"
  by (auto simp: jack_queue_write_def Let_def split: if_splits option.splits)

lemma ticking_host_accepts:
  "\<forall>e p x. fst (midi_received ticking_host e p x) = 0"
  "\<forall>pt d p x. fst (midi_send ticking_host pt d p x) = 0"
  by (simp_all add: ticking_host_def)

text \<open>
  Claim C1, as the code has it.  On the CoreMIDI backend, for a message shorter than
  \<open>2 ^ 32\<close> bytes, \<open>send_message\<close> returns \<open>invalid_argument\<close> exactly when the message
  is empty and \<open>bad_message\<close> exactly when it is longer than three bytes and does not
  start with \<open>0xF0\<close>.  The queued JACK variant makes neither check: whatever it
  returns is success or \<open>no_buffer_space\<close>.
\<close>

theorem send_validation:
  "(length b < 2 ^ 32 \<longrightarrow>
      (fst (send_message H self b h) = Some invalid_argument \<longleftrightarrow> length b = 0)
    \<and> (fst (send_message H self b h) = Some bad_message \<longleftrightarrow> (length b > 3 \<and> b ! 0 \<noteq> 0xF0)))
   \<and> (\<forall>r s'. queued_send_message s b = Some (r, s') \<longrightarrow> r = None \<or> r = Some no_buffer_space)"
proof (intro conjI impI allI)
  assume len: "length b < 2 ^ 32"
  have loop: "fst (send_packets H self b n l t n [] h) \<noteq> Some invalid_argument
            \<and> fst (send_packets H self b n l t n [] h) \<noteq> Some bad_message" for n l t
    using send_packets_error[of H self b n l t n "[]" h] by auto
  from len show "fst (send_message H self b h) = Some invalid_argument \<longleftrightarrow> length b = 0"
    using loop by (auto simp: send_message_def Let_def)
  from len show "fst (send_message H self b h) = Some bad_message
                   \<longleftrightarrow> (length b > 3 \<and> b ! 0 \<noteq> 0xF0)"
    using loop by (auto simp: send_message_def Let_def)
next
  fix r s' assume "queued_send_message s b = Some (r, s')"
  then show "r = None \<or> r = Some no_buffer_space"
    by (auto simp: queued_send_message_def dest: jack_queue_write_result)
qed

theorem send_validation_witness:
  "length [0x90, 0x3C, 0x7F, 0 :: byte] < 2 ^ 32
   \<and> fst (send_message ticking_host core_connected [0x90, 0x3C, 0x7F, 0] 0) = Some bad_message
   \<and> fst (send_message ticking_host core_connected [0xF0, 0x7E, 0x7F, 0x06, 0x01, 0xF7] 0)
        \<noteq> Some bad_message
   \<and> queued_send_message queued64 (replicate 60 0) = Some (Some no_buffer_space, queued64)"
proof -
  have a: "fst (send_message ticking_host core_connected [0x90, 0x3C, 0x7F, 0] 0) = Some bad_message"
    using send_validation[of "[0x90, 0x3C, 0x7F, 0]" ticking_host core_connected 0] by simp
  have b: "fst (send_message ticking_host core_connected [0xF0, 0x7E, 0x7F, 0x06, 0x01, 0xF7] 0)
        \<noteq> Some bad_message"
    using send_validation[of "[0xF0, 0x7E, 0x7F, 0x06, 0x01, 0xF7]" ticking_host core_connected 0]
    by simp
  have c: "queued_send_message queued64 (replicate 60 0) = Some (Some no_buffer_space, queued64)"
    by (simp add: queued_send_message_def queued64_def queue64
          jack_queue_write_def size_sz_def)
  from a b c show ?thesis by simp
qed

text \<open>
  Claim C1 as stated fails: the queued JACK variant accepts the empty message and a
  four-byte channel message, and the CoreMIDI backend reports a non-empty message of
  \<open>2 ^ 32\<close> bytes as having no data.
\<close>

theorem send_validation_counterexample:
  "map_option fst (queued_send_message queued64 []) = Some None
   \<and> map_option fst (queued_send_message queued64 [0x90, 0x3C, 0x7F, 0]) = Some None
   \<and> length (0xF0 # replicate 4294967295 (0 :: byte)) \<noteq> 0
   \<and> fst (send_message ticking_host core_connected (0xF0 # replicate 4294967295 0) 0)
        = Some invalid_argument"
  by (simp add: queued_send_message_def queued64_def queue64
        jack_queue_write_def size_sz_def wait_write_space_enough jack_ringbuffer_write_space_def
        send_message_def option.map_comp comp_def split_def)


text \<open>
  Fragmentation below \<open>2 ^ 32\<close> bytes, where the narrowing of the length to
  \<open>unsigned int\<close> loses nothing.  When \<open>send_message\<close> succeeds, every packet handed to
  the host carries the time stamp read before the loop and at most 65535 bytes, and
  on each active path (virtual endpoint, destination) the payloads in call order
  concatenate to the message.
\<close>

lemma fragmentation:
  assumes "send_message H self b h = (None, calls, h')" and "length b < 2 ^ 32"
  shows "(\<forall>c \<in> set calls. timeStamp (call_packet c) = get_current_host_time H h
                            \<and> length (pkt_data (call_packet c)) \<le> 65535)
       \<and> (core_endpoint self \<noteq> 0 \<longrightarrow> concat (received_payloads calls) = b)
       \<and> (destinationId self \<noteq> 0 \<longrightarrow> concat (sent_payloads calls) = b)"
  using send_message_trace[OF assms(1)] assms(2) by simp

lemma fragmentation_long_sysex:
  "65535 < length long_sysex \<and> length long_sysex < 2 ^ 32
   \<and> fst (send_message ticking_host core_connected long_sysex 0) = None
   \<and> (let calls = fst (snd (send_message ticking_host core_connected long_sysex 0))
      in calls \<noteq> []
       \<and> list_all (\<lambda>c. timeStamp (call_packet c) = 0 \<and> length (pkt_data (call_packet c)) \<le> 65535) calls
       \<and> concat (received_payloads calls) = long_sysex
       \<and> concat (sent_payloads calls) = long_sysex)"
proof -
  have len: "length long_sysex < 2 ^ 32" "65535 < length long_sysex"
    by (simp_all add: long_sysex_def)
  have ok: "fst (send_message ticking_host core_connected long_sysex 0) = None"
    by (rule send_message_accepting[OF ticking_host_accepts]) (simp_all add: long_sysex_def)
  then obtain calls h' where
    run: "send_message ticking_host core_connected long_sysex 0 = (None, calls, h')"
    by (cases "send_message ticking_host core_connected long_sysex 0") auto
  have sides: "core_endpoint core_connected \<noteq> 0" "destinationId core_connected \<noteq> 0"
    by (simp_all add: core_connected_def)
  have "concat (received_payloads calls) = long_sysex"
    using fragmentation[OF run len(1)] sides by simp
  moreover have "concat (sent_payloads calls) = long_sysex"
    using fragmentation[OF run len(1)] sides by simp
  moreover have "list_all (\<lambda>c. timeStamp (call_packet c) = 0
                    \<and> length (pkt_data (call_packet c)) \<le> 65535) calls"
    using fragmentation[OF run len(1)] by (simp add: list_all_iff ticking_host_def)
  moreover have "calls \<noteq> []"
    using \<open>concat (received_payloads calls) = long_sysex\<close> by (auto simp: long_sysex_def)
  ultimately show ?thesis using len ok run by simp
qed

text \<open>
  Claim C2 at a SysEx message of \<open>2 ^ 32 + 65536\<close> bytes.  \<open>send_message\<close> narrows the
  length to \<open>unsigned int\<close> on entry, so its loop, which by its own comment breaks the
  message up into chunks of 64K or less, is run for 65536 bytes: the call succeeds
  and the host is handed the first 65536 bytes only, where the claim has the whole
  message.
\<close>

theorem fragmentation_truncated:
  "65535 < length huge_sysex
   \<and> fst (send_message ticking_host core_connected huge_sysex 0) = None
   \<and> length (concat (received_payloads
        (fst (snd (send_message ticking_host core_connected huge_sysex 0))))) = 65536
   \<and> concat (received_payloads
        (fst (snd (send_message ticking_host core_connected huge_sysex 0)))) \<noteq> huge_sysex"
proof -
  have md: "length huge_sysex mod 2 ^ 32 = 65536"
    by (simp add: huge_sysex_def)
  have ok: "fst (send_message ticking_host core_connected huge_sysex 0) = None"
  proof (rule send_message_accepting[OF ticking_host_accepts])
    show "length huge_sysex mod 2 ^ 32 \<noteq> 0" using md by simp
    show "huge_sysex ! 0 = 0xF0 \<or> length huge_sysex mod 2 ^ 32 \<le> 3"
      by (simp add: huge_sysex_def)
  qed
  then obtain calls h' where
    run: "send_message ticking_host core_connected huge_sysex 0 = (None, calls, h')"
    by (cases "send_message ticking_host core_connected huge_sysex 0") auto
  have "concat (received_payloads calls) = take 65536 huge_sysex"
    using send_message_trace[OF run] md by (simp add: core_connected_def)
  then have l: "length (concat (received_payloads calls)) = 65536"
    by (simp add: huge_sysex_def)
  then have "concat (received_payloads calls) \<noteq> huge_sysex"
    by (auto simp: huge_sysex_def)
  with l ok run show ?thesis by (simp add: huge_sysex_def)
qed

text \<open>
  Sending with neither a virtual endpoint nor a destination.  A message that is a
  SysEx or has at most three bytes, and whose length narrowed to \<open>unsigned int\<close> is
  not 0 (below \<open>2 ^ 32\<close> bytes: a message that is not empty), is answered with
  success; no host call is made and the host state is untouched.
\<close>

lemma silent_send:
  assumes "core_endpoint self = 0" and "destinationId self = 0"
    and "length b mod 2 ^ 32 \<noteq> 0" and "b ! 0 = 0xF0 \<or> length b \<le> 3"
  shows "send_message H self b h = (None, [], h)"
proof -
  have "\<not> (b ! 0 \<noteq> 0xF0 \<and> 3 < length b mod 2 ^ 32)"
    using assms(4) by (auto simp: not_less intro: order_trans[OF mod_less_eq_dividend])
  then show ?thesis
    using assms(1-3) by (simp add: send_message_def Let_def send_packets_idle)
qed

lemma silent_send_examples:
  "core_endpoint core_idle = 0 \<and> destinationId core_idle = 0
   \<and> send_message ticking_host core_idle [0x90, 0x3C, 0x7F] 0 = (None, [], 0)
   \<and> send_message ticking_host core_idle [0xF0, 0x7E, 0x7F, 0x06, 0x01, 0xF7] 0 = (None, [], 0)"
  using silent_send[of core_idle "[0x90, 0x3C, 0x7F]" ticking_host 0]
        silent_send[of core_idle "[0xF0, 0x7E, 0x7F, 0x06, 0x01, 0xF7]" ticking_host 0]
  by (simp add: core_idle_def)

text \<open>
  Claim C9 at a SysEx message of exactly \<open>2 ^ 32\<close> bytes, on an object with neither a
  virtual endpoint nor a destination.  The message is not empty, but its length
  narrowed to \<open>unsigned int\<close> is 0, which \<open>send_message\<close> takes for an empty message:
  the call returns \<open>invalid_argument\<close> where the claim has success.
\<close>

theorem silent_send_rejected:
  "core_endpoint core_idle = 0 \<and> destinationId core_idle = 0
   \<and> 0xF0 # replicate 4294967295 (0 :: byte) \<noteq> []
   \<and> (0xF0 # replicate 4294967295 (0 :: byte)) ! 0 = 0xF0
   \<and> send_message ticking_host core_idle (0xF0 # replicate 4294967295 0) 0
        = (Some invalid_argument, [], 0)"
  by (simp add: send_message_def core_idle_def)

section \<open>Properties of the ring queue\<close>

text \<open>
  Claim C5.  A payload whose frame exceeds the usable capacity recorded at
  construction is refused with \<open>no_buffer_space\<close>, without waiting, and the queue is
  returned as it was.
\<close>

theorem write_too_large:
  assumes "length w + 4 > ringbuffer_space q"
  shows "jack_queue_write q w = Some (Some no_buffer_space, q)"
  using assms by (simp add: jack_queue_write_def size_sz_def)

theorem write_too_large_witness:
  "length (replicate 60 (0 :: byte)) + 4 > ringbuffer_space (jack_queue_new 64)
   \<and> jack_queue_write (jack_queue_new 64) (replicate 60 0)
        = Some (Some no_buffer_space, jack_queue_new 64)"
  using write_too_large[of "jack_queue_new 64" "replicate 60 0"]
  by (simp add: queue64)

lemma le_value_encode: "le_value (encode_int32 n) = n mod 2 ^ 32"
proof -
  have d: "n div 256 div 256 = n div 65536" "n div 65536 div 256 = n div 16777216"
    by (simp_all add: div_mult2_eq)
  have a: "n mod 4294967296 = n mod 256 + 256 * (n div 256 mod 16777216)"
    using mod_mult2_eq[of n 256 16777216] by simp
  have b: "n div 256 mod 16777216 = n div 256 mod 256 + 256 * (n div 65536 mod 65536)"
    using mod_mult2_eq[of "n div 256" 256 65536] d(1) by simp
  have c: "n div 65536 mod 65536 = n div 65536 mod 256 + 256 * (n div 16777216 mod 256)"
    using mod_mult2_eq[of "n div 65536" 256 256] d(2) by simp
  have "le_value (encode_int32 n)
          = n mod 256 + 256 * (n div 256 mod 256
              + 256 * (n div 65536 mod 256 + 256 * (n div 16777216 mod 256)))"
    by (simp add: encode_int32_def unat_of_nat)
  also have "\<dots> = n mod 4294967296"
    unfolding a b c by simp
  finally show ?thesis by simp
qed

lemma length_encode_int32 [simp]: "length (encode_int32 n) = 4"
  by (simp add: encode_int32_def)

lemma decode_encode:
  assumes "n < 2 ^ 31"
  shows "decode_int32 (encode_int32 n @ rest) = int n"
proof -
  have "take 4 (encode_int32 n @ rest) = encode_int32 n" by simp
  moreover have "n mod 2 ^ 32 = n" using assms by simp
  ultimately show ?thesis
    using assms by (simp add: decode_int32_def le_value_encode Let_def del: take_append)
qed

lemma to_size_t_nat: "n < 2 ^ 64 \<Longrightarrow> to_size_t (int n) = n"
  by (simp add: to_size_t_def nat_mod_distrib[symmetric] flip: of_nat_mod)

lemma read_loop_frame:
  assumes "rb_bytes rb = frame w @ rest" and "length w < 2 ^ 31"
  shows "read_loop reserve rb events
           = read_loop reserve (rb\<lparr>rb_bytes := rest\<rparr>)
               (if reserve events (length w) then events @ [w] else events)"
proof -
  have dec: "decode_int32 (encode_int32 (length w)) = int (length w)"
    using decode_encode[OF assms(2), of "[]"] by simp
  have sz: "to_size_t (int (length w)) = length w"
    using assms(2) by (intro to_size_t_nat) simp
  have md: "(4 + length w) mod 18446744073709551616 = 4 + length w"
    using assms(2) by simp
  show ?thesis
    by (subst read_loop.simps)
       (simp add: assms(1) frame_def jack_ringbuffer_peek_def jack_ringbuffer_read_space_def
          jack_ringbuffer_read_advance_def jack_ringbuffer_read_def size_sz_def dec sz md Let_def)
qed

lemma read_loop_stuck:
  "stuck (rb_bytes rb) \<Longrightarrow> read_loop reserve rb events = (rb, events)"
  by (subst read_loop.simps)
     (auto simp: stuck_def jack_ringbuffer_peek_def jack_ringbuffer_read_space_def Let_def)

lemma read_loop_frames:
  assumes "rb_bytes rb = frames ws @ tail" and "\<forall>w \<in> set ws. length w < 2 ^ 31"
    and "stuck tail"
  shows "read_loop reserve rb events = (rb\<lparr>rb_bytes := tail\<rparr>, sink_run reserve events ws)"
  using assms
proof (induction ws arbitrary: rb events)
  case Nil
  then show ?case by (simp add: frames_def read_loop_stuck)
next
  case (Cons w ws)
  have "rb_bytes rb = frame w @ (frames ws @ tail)"
    using Cons.prems(1) by (simp add: frames_def)
  then have "read_loop reserve rb events
           = read_loop reserve (rb\<lparr>rb_bytes := frames ws @ tail\<rparr>)
               (if reserve events (length w) then events @ [w] else events)"
    using Cons.prems(2) by (intro read_loop_frame) simp_all
  also have "\<dots> = (rb\<lparr>rb_bytes := tail\<rparr>,
       sink_run reserve (if reserve events (length w) then events @ [w] else events) ws)"
    using Cons.IH[of "rb\<lparr>rb_bytes := frames ws @ tail\<rparr>"] Cons.prems(2,3) by simp
  finally show ?case by simp
qed

lemma stuck_Nil: "stuck []"
  by (simp add: stuck_def size_sz_def)

lemma stuck_length:
  assumes "0 < n" "n < 2 ^ 31"
  shows "stuck (encode_int32 n)"
proof -
  have "decode_int32 (take 4 (encode_int32 n)) = int n"
    using decode_encode[OF assms(2), of "[]"] by simp
  moreover have "to_size_t (int n) = n" using assms(2) by (intro to_size_t_nat) simp
  moreover have "(4 + n) mod 2 ^ 64 = 4 + n" using assms(2) by simp
  ultimately show ?thesis using assms(1) by (simp add: stuck_def size_sz_def)
qed

lemma sink_run_accepting: "sink_run (\<lambda>events n. True) events ws = events @ ws"
  by (induction ws arbitrary: events) simp_all

lemma sink_run_subseq: "\<exists>kept. sink_run reserve events ws = events @ kept \<and> subseq kept ws"
proof (induction ws arbitrary: events)
  case Nil
  then show ?case by simp
next
  case (Cons w ws)
  show ?case
  proof (cases "reserve events (length w)")
    case True
    from Cons.IH[of "events @ [w]"] obtain kept where
      "sink_run reserve (events @ [w]) ws = (events @ [w]) @ kept" "subseq kept ws" by blast
    with True show ?thesis by (intro exI[of _ "w # kept"]) simp
  next
    case False
    from Cons.IH[of events] obtain kept where
      "sink_run reserve events ws = events @ kept" "subseq kept ws" by blast
    with False show ?thesis by (intro exI[of _ kept]) (simp add: list_emb_Cons)
  qed
qed

lemma length_frame [simp]: "length (frame w) = length w + 4"
  by (simp add: frame_def)

lemma length_frames: "length (frames ws) = (\<Sum>w\<leftarrow>ws. length w + 4)"
  by (induction ws) (simp_all add: frames_def)

lemma frames_Cons [simp]: "frames (w # ws) = frame w @ frames ws"
  by (simp add: frames_def)

lemma frames_Nil [simp]: "frames [] = []"
  by (simp add: frames_def)

lemma frames_append [simp]: "frames (xs @ ys) = frames xs @ frames ys"
  by (simp add: frames_def)

lemma jack_queue_write_fits:
  assumes "length w + 4 \<le> ringbuffer_space q"
    and "length (rb_bytes (ringbuffer q)) + (length w + 4) \<le> rb_size (ringbuffer q) - 1"
  shows "jack_queue_write q w
           = Some (None, q\<lparr>ringbuffer := (ringbuffer q)\<lparr>rb_bytes :=
                       rb_bytes (ringbuffer q) @ frame w\<rparr>\<rparr>)"
proof -
  have sp: "length w + 4 \<le> jack_ringbuffer_write_space (ringbuffer q)"
    using assms(2) by (simp add: jack_ringbuffer_write_space_def)
  then have w: "wait_write_space (ringbuffer q) (length w + 4) = Some ()"
    by (rule wait_write_space_enough)
  show ?thesis
    using assms sp
    by (simp add: jack_queue_write_def size_sz_def w jack_ringbuffer_write_def
          jack_ringbuffer_write_space_def frame_def Let_def min_def)
qed

lemma write_all_fits:
  assumes "\<forall>w \<in> set ws. length w + 4 \<le> ringbuffer_space q"
    and "length (rb_bytes (ringbuffer q)) + length (frames ws) \<le> rb_size (ringbuffer q) - 1"
  shows "write_all q ws
           = Some (q\<lparr>ringbuffer := (ringbuffer q)\<lparr>rb_bytes :=
                       rb_bytes (ringbuffer q) @ frames ws\<rparr>\<rparr>)"
  using assms
proof (induction ws arbitrary: q)
  case Nil
  then show ?case by simp
next
  case (Cons w ws)
  let ?q = "q\<lparr>ringbuffer := (ringbuffer q)\<lparr>rb_bytes := rb_bytes (ringbuffer q) @ frame w\<rparr>\<rparr>"
  have one: "jack_queue_write q w = Some (None, ?q)"
    using Cons.prems by (intro jack_queue_write_fits) simp_all
  have "write_all ?q ws
          = Some (?q\<lparr>ringbuffer := (ringbuffer ?q)\<lparr>rb_bytes :=
                       rb_bytes (ringbuffer ?q) @ frames ws\<rparr>\<rparr>)"
    using Cons.prems by (intro Cons.IH) simp_all
  with one show ?case by simp
qed


text \<open>
  Claim C4.  Starting from an empty queue whose recorded capacity is the ring's
  (one byte less than its size), writes whose frames together fit the capacity all
  return success, and one drain into a sink that grants every reservation hands
  over exactly the payloads, in write order, and leaves the queue empty again.
  The host's ring buffers are smaller than \<open>2 ^ 31\<close> bytes, so every length fits
  the signed 32-bit prefix.
\<close>

theorem ring_round_trip:
  assumes "rb_bytes (ringbuffer q) = []"
    and "ringbuffer_space q = rb_size (ringbuffer q) - 1"
    and "ringbuffer_space q < 2 ^ 31"
    and "(\<Sum>w\<leftarrow>ws. length w + 4) \<le> ringbuffer_space q"
  shows "\<exists>q'. write_all q ws = Some q'
              \<and> jack_queue_read q' (\<lambda>events n. True) [] = (q, ws)"
proof -
  have each: "length w + 4 \<le> ringbuffer_space q" if "w \<in> set ws" for w
  proof -
    from that have "length w + 4 \<in> set (map (\<lambda>w. length w + 4) ws)" by auto
    then have "length w + 4 \<le> (\<Sum>w\<leftarrow>ws. length w + 4)"
      by (intro member_le_sum_list) simp_all
    with assms(4) show ?thesis by simp
  qed
  let ?q' = "q\<lparr>ringbuffer := (ringbuffer q)\<lparr>rb_bytes := frames ws\<rparr>\<rparr>"
  have w: "write_all q ws = Some ?q'"
    using write_all_fits[of ws q] each assms(1,2,4) by (simp add: length_frames)
  have small: "\<forall>w \<in> set ws. length w < 2 ^ 31"
    using each assms(3) by fastforce
  have "read_loop (\<lambda>events n. True) (ringbuffer ?q') []
          = ((ringbuffer ?q')\<lparr>rb_bytes := []\<rparr>, sink_run (\<lambda>events n. True) [] ws)"
    using small by (intro read_loop_frames) (simp_all add: stuck_Nil)
  then have "jack_queue_read ?q' (\<lambda>events n. True) [] = (q, ws)"
    using assms(1) by (simp add: jack_queue_read_def sink_run_accepting)
  with w show ?thesis by blast
qed

theorem ring_round_trip_witness:
  "rb_bytes (ringbuffer (jack_queue_new 64)) = []
   \<and> ringbuffer_space (jack_queue_new 64) = rb_size (ringbuffer (jack_queue_new 64)) - 1
   \<and> ringbuffer_space (jack_queue_new 64) < 2 ^ 31
   \<and> (\<Sum>w\<leftarrow>[[0x90, 0x3C, 0x7F], [], [0xF0, 0x7E, 0x7F, 0x06, 0x01, 0xF7 :: byte]].
         length w + 4) \<le> ringbuffer_space (jack_queue_new 64)
   \<and> (\<exists>q'. write_all (jack_queue_new 64)
               [[0x90, 0x3C, 0x7F], [], [0xF0, 0x7E, 0x7F, 0x06, 0x01, 0xF7]] = Some q'
           \<and> jack_queue_read q' (\<lambda>events n. True) []
                = (jack_queue_new 64, [[0x90, 0x3C, 0x7F], [], [0xF0, 0x7E, 0x7F, 0x06, 0x01, 0xF7]]))"
  using ring_round_trip[of "jack_queue_new 64"
          "[[0x90, 0x3C, 0x7F], [], [0xF0, 0x7E, 0x7F, 0x06, 0x01, 0xF7]]"]
  by (simp add: queue64)

lemma spsc_inv_start:
  assumes "rb_bytes (ringbuffer q0) = []"
  shows "spsc_inv q0 \<lparr>shared_queue = q0, producer_at = Producer_idle, started = [], emitted = []\<rparr>"
  using assms by (simp add: spsc_inv_def inflight_def)

lemma drain_view:
  assumes "bs @ fl = frames pending" "\<forall>w \<in> set pending. length w < 2 ^ 31"
    and "fl = [] \<or> (pending \<noteq> [] \<and> last pending = fl)"
  shows "\<exists>whole rest. pending = whole @ rest
           \<and> read_loop reserve (rb\<lparr>rb_bytes := bs\<rparr>) []
               = (rb\<lparr>rb_bytes := drop (length (frames whole)) bs\<rparr>, sink_run reserve [] whole)
           \<and> drop (length (frames whole)) bs @ fl = frames rest"
proof (cases "fl = []")
  case True
  have "read_loop reserve (rb\<lparr>rb_bytes := bs\<rparr>) []
          = (rb\<lparr>rb_bytes := bs, rb_bytes := []\<rparr>, sink_run reserve [] pending)"
    using assms(1,2) True by (intro read_loop_frames) (simp_all add: stuck_Nil)
  with assms(1) True show ?thesis
    by (intro exI[of _ pending] exI[of _ "[]"]) simp
next
  case False
  with assms(3) obtain p0 where p: "pending = p0 @ [fl]"
    by (metis append_butlast_last_id)
  have bs: "bs = frames p0 @ encode_int32 (length fl)"
    using assms(1) p by (simp add: frame_def)
  have "length fl < 2 ^ 31" using assms(2) p by simp
  with False have st: "stuck (encode_int32 (length fl))"
    by (intro stuck_length) simp_all
  have "read_loop reserve (rb\<lparr>rb_bytes := bs\<rparr>) []
          = (rb\<lparr>rb_bytes := bs, rb_bytes := encode_int32 (length fl)\<rparr>, sink_run reserve [] p0)"
    using assms(2) p st bs by (intro read_loop_frames) simp_all
  with bs p show ?thesis
    by (intro exI[of _ p0] exI[of _ "[fl]"]) (simp add: frame_def)
qed


lemma spsc_inv_step:
  assumes inv: "spsc_inv q0 s" and step: "spsc_step s s'"
    and cap: "ringbuffer_space q0 = rb_size (ringbuffer q0) - 1" "ringbuffer_space q0 < 2 ^ 31"
  shows "spsc_inv q0 s'"
  using step
proof cases
  case (write_length w)
  let ?rb = "ringbuffer (shared_queue s)"
  from inv obtain consumed pending where
    sz: "rb_size ?rb = rb_size (ringbuffer q0)"
    and sp: "ringbuffer_space (shared_queue s) = ringbuffer_space q0"
    and small: "\<forall>w \<in> set (started s). length w < 2 ^ 31"
    and st: "started s = consumed @ pending" and em: "subseq (emitted s) consumed"
    and view: "rb_bytes ?rb @ inflight s = frames pending"
    unfolding spsc_inv_def by blast
  have idle: "inflight s = []" using write_length(2) by (simp add: inflight_def)
  have room: "length w + 4 \<le> rb_size ?rb - 1 - length (rb_bytes ?rb)"
    using write_length(4) by (simp add: jack_ringbuffer_write_space_def size_sz_def)
  then have bytes: "rb_bytes (snd (jack_ringbuffer_write ?rb (encode_int32 (length w))))
                      = rb_bytes ?rb @ encode_int32 (length w)"
    by (simp add: jack_ringbuffer_write_def jack_ringbuffer_write_space_def Let_def min_def)
  have size': "rb_size (snd (jack_ringbuffer_write ?rb (encode_int32 (length w)))) = rb_size ?rb"
    by (simp add: jack_ringbuffer_write_def Let_def)
  have w_small: "length w < 2 ^ 31"
    using write_length(3) sp cap(2) by (simp add: size_sz_def)
  have "started s' = consumed @ (pending @ [w])"
    using st by (simp add: write_length(1))
  moreover have "subseq (emitted s') consumed"
    using em by (simp add: write_length(1))
  moreover have "rb_bytes (ringbuffer (shared_queue s')) @ inflight s' = frames (pending @ [w])"
    using view idle bytes by (simp add: write_length(1) inflight_def frame_def)
  ultimately have ex: "\<exists>consumed pending. started s' = consumed @ pending
       \<and> subseq (emitted s') consumed
       \<and> rb_bytes (ringbuffer (shared_queue s')) @ inflight s' = frames pending"
    by blast
  have "length (rb_bytes (ringbuffer (shared_queue s'))) + length (inflight s')
          \<le> rb_size (ringbuffer q0) - 1"
    using room bytes sz by (simp add: write_length(1) inflight_def)
  with ex small w_small sz sp size' show ?thesis
    unfolding spsc_inv_def by (simp add: write_length(1))
next
  case (write_payload w)
  let ?rb = "ringbuffer (shared_queue s)"
  from inv obtain consumed pending where
    sz: "rb_size ?rb = rb_size (ringbuffer q0)"
    and sp: "ringbuffer_space (shared_queue s) = ringbuffer_space q0"
    and len: "length (rb_bytes ?rb) + length (inflight s) \<le> rb_size (ringbuffer q0) - 1"
    and small: "\<forall>w \<in> set (started s). length w < 2 ^ 31"
    and st: "started s = consumed @ pending" and em: "subseq (emitted s) consumed"
    and view: "rb_bytes ?rb @ inflight s = frames pending"
    unfolding spsc_inv_def by blast
  have fl: "inflight s = w" using write_payload(2) by (simp add: inflight_def)
  have bytes: "rb_bytes (snd (jack_ringbuffer_write ?rb w)) = rb_bytes ?rb @ w"
    using len fl sz
    by (simp add: jack_ringbuffer_write_def jack_ringbuffer_write_space_def Let_def min_def)
  have size': "rb_size (snd (jack_ringbuffer_write ?rb w)) = rb_size ?rb"
    by (simp add: jack_ringbuffer_write_def Let_def)
  have "rb_bytes (ringbuffer (shared_queue s')) @ inflight s' = frames pending"
    using view fl bytes by (simp add: write_payload(1) inflight_def)
  with st em have ex: "\<exists>consumed pending. started s' = consumed @ pending
       \<and> subseq (emitted s') consumed
       \<and> rb_bytes (ringbuffer (shared_queue s')) @ inflight s' = frames pending"
    by (auto simp: write_payload(1))
  have "length (rb_bytes (ringbuffer (shared_queue s'))) + length (inflight s')
          \<le> rb_size (ringbuffer q0) - 1"
    using len fl bytes by (simp add: write_payload(1) inflight_def)
  with ex small sz sp size' show ?thesis
    unfolding spsc_inv_def by (simp add: write_payload(1))
next
  case (drain reserve)
  let ?rb = "ringbuffer (shared_queue s)"
  from inv obtain consumed pending where
    sz: "rb_size ?rb = rb_size (ringbuffer q0)"
    and sp: "ringbuffer_space (shared_queue s) = ringbuffer_space q0"
    and len: "length (rb_bytes ?rb) + length (inflight s) \<le> rb_size (ringbuffer q0) - 1"
    and small: "\<forall>w \<in> set (started s). length w < 2 ^ 31"
    and lst: "\<forall>w. producer_at s = Wrote_length w \<longrightarrow> started s \<noteq> [] \<and> last (started s) = w"
    and st: "started s = consumed @ pending" and em: "subseq (emitted s) consumed"
    and view: "rb_bytes ?rb @ inflight s = frames pending"
    unfolding spsc_inv_def by blast
  have tail: "inflight s = [] \<or> (pending \<noteq> [] \<and> last pending = inflight s)"
  proof (cases "inflight s = []")
    case False
    then obtain w where w: "producer_at s = Wrote_length w" "inflight s = w"
      by (cases "producer_at s") (auto simp: inflight_def)
    with lst have l: "started s \<noteq> []" "last (started s) = w" by auto
    from view False have "pending \<noteq> []" by auto
    with l st w show ?thesis by simp
  qed simp
  have psmall: "\<forall>w \<in> set pending. length w < 2 ^ 31" using small st by simp
  from drain_view[OF view psmall tail, of reserve ?rb] obtain whole rest where
    split: "pending = whole @ rest"
    and run: "read_loop reserve ?rb []
               = (?rb\<lparr>rb_bytes := drop (length (frames whole)) (rb_bytes ?rb)\<rparr>,
                  sink_run reserve [] whole)"
    and view': "drop (length (frames whole)) (rb_bytes ?rb) @ inflight s = frames rest"
    by auto
  obtain kept where kept: "sink_run reserve [] whole = kept" "subseq kept whole"
    using sink_run_subseq[of reserve "[]" "whole"] by auto
  have q': "jack_queue_read (shared_queue s) reserve []
              = ((shared_queue s)\<lparr>ringbuffer :=
                    ?rb\<lparr>rb_bytes := drop (length (frames whole)) (rb_bytes ?rb)\<rparr>\<rparr>, kept)"
    using run kept(1) by (simp add: jack_queue_read_def)
  have fl: "inflight s' = inflight s" by (simp add: drain inflight_def)
  have "started s' = (consumed @ whole) @ rest" using st split by (simp add: drain)
  moreover have "subseq (emitted s') (consumed @ whole)"
    using em kept(2) by (simp add: drain q' list_emb_append_mono)
  moreover have "rb_bytes (ringbuffer (shared_queue s')) @ inflight s' = frames rest"
    using view' fl by (simp add: drain q')
  ultimately have ex: "\<exists>consumed pending. started s' = consumed @ pending
       \<and> subseq (emitted s') consumed
       \<and> rb_bytes (ringbuffer (shared_queue s')) @ inflight s' = frames pending"
    by blast
  have "length (rb_bytes (ringbuffer (shared_queue s'))) + length (inflight s')
          \<le> rb_size (ringbuffer q0) - 1"
    using len fl by (simp add: drain q')
  with ex small lst sz sp show ?thesis
    unfolding spsc_inv_def by (simp add: drain q')
qed

lemma spsc_run_inv:
  assumes "spsc_run q0 s" and "rb_bytes (ringbuffer q0) = []"
    and "ringbuffer_space q0 = rb_size (ringbuffer q0) - 1" "ringbuffer_space q0 < 2 ^ 31"
  shows "spsc_inv q0 s"
  using assms
proof (induction rule: spsc_run.induct)
  case start
  then show ?case by (simp add: spsc_inv_start)
next
  case (step s s')
  then show ?case by (auto intro: spsc_inv_step)
qed

lemma wait_write_space_Some:
  "wait_write_space rb n = Some y \<Longrightarrow> n \<le> jack_ringbuffer_write_space rb"
  by (rule wait_write_space.raw_induct
        [where P = "\<lambda>rb n y. n \<le> jack_ringbuffer_write_space rb"])
     (auto split: if_splits)

lemma wait_write_space_None:
  "jack_ringbuffer_write_space rb < n \<Longrightarrow> wait_write_space rb n = None"
  using wait_write_space_Some[of rb n] by (cases "wait_write_space rb n") auto

text \<open>
  A successful \<open>write\<close> is the two producer steps of the interleaving, one after
  the other.
\<close>

lemma jack_queue_write_steps:
  assumes "producer_at s = Producer_idle" and "jack_queue_write (shared_queue s) w = Some (None, q')"
  shows "\<exists>s1. spsc_step s s1
            \<and> spsc_step s1 (s\<lparr>shared_queue := q', producer_at := Producer_idle,
                              started := started s @ [w]\<rparr>)"
proof -
  let ?q = "shared_queue s"
  have cap: "length w + size_sz \<le> ringbuffer_space ?q"
    using assms(2) by (auto simp: jack_queue_write_def Let_def split: if_splits)
  have "wait_write_space (ringbuffer ?q) (length w + size_sz) \<noteq> None"
    using assms(2) cap by (auto simp: jack_queue_write_def Let_def split: if_splits option.splits)
  then have room: "length w + size_sz \<le> jack_ringbuffer_write_space (ringbuffer ?q)"
    using wait_write_space_Some by auto
  have q': "q' = ?q\<lparr>ringbuffer := snd (jack_ringbuffer_write
                 (snd (jack_ringbuffer_write (ringbuffer ?q) (encode_int32 (length w)))) w)\<rparr>"
    using assms(2) cap
    by (auto simp: jack_queue_write_def Let_def split: if_splits option.splits)
  let ?s1 = "s\<lparr>shared_queue := ?q\<lparr>ringbuffer :=
              snd (jack_ringbuffer_write (ringbuffer ?q) (encode_int32 (length w)))\<rparr>,
          producer_at := Wrote_length w,
          started := started s @ [w]\<rparr>"
  have one: "spsc_step s ?s1"
    using assms(1) cap room by (rule spsc_step.write_length)
  have "spsc_step ?s1 (?s1\<lparr>shared_queue := (shared_queue ?s1)\<lparr>ringbuffer :=
              snd (jack_ringbuffer_write (ringbuffer (shared_queue ?s1)) w)\<rparr>,
          producer_at := Producer_idle\<rparr>)"
    by (rule spsc_step.write_payload) simp
  then have two: "spsc_step ?s1 (s\<lparr>shared_queue := q', producer_at := Producer_idle,
                              started := started s @ [w]\<rparr>)"
    by (cases s) (simp add: q')
  from one two show ?thesis by blast
qed

lemma inflight64_step: "spsc_step spsc_start64 spsc_inflight64"
proof -
  have "spsc_step spsc_start64
       (spsc_start64\<lparr>shared_queue := (shared_queue spsc_start64)\<lparr>ringbuffer :=
              snd (jack_ringbuffer_write (ringbuffer (shared_queue spsc_start64))
                     (encode_int32 (length [0x90, 0x3C, 0x7F :: byte])))\<rparr>,
          producer_at := Wrote_length [0x90, 0x3C, 0x7F],
          started := started spsc_start64 @ [[0x90, 0x3C, 0x7F]]\<rparr>)"
    by (rule spsc_step.write_length)
       (simp_all add: spsc_start64_def queue64 size_sz_def jack_ringbuffer_write_space_def)
  then show ?thesis
    by (simp add: spsc_start64_def spsc_inflight64_def queue64 jack_ringbuffer_write_def
          jack_ringbuffer_write_space_def encode_int32_def Let_def)
qed

lemma inflight64_run: "spsc_run (jack_queue_new 64) spsc_inflight64"
proof -
  have "spsc_run (jack_queue_new 64) spsc_start64"
    unfolding spsc_start64_def by (rule spsc_run.start)
  then show ?thesis using inflight64_step by (rule spsc_run.step)
qed

text \<open>
  Claim C6, as the code has it.  In every state reached by interleaving the
  producer's two ring writes per message with drains of the consumer, the readable
  bytes completed by the payload the producer still owes are whole frames: those of
  the payloads started and not yet consumed.  The payloads consumed so far are a
  prefix of the payloads started, whole and in order, and the events emitted are a
  subsequence of them.  So the only partial frame the ring ever shows is the length
  prefix of the write in progress, and the consumer never takes a length without
  its payload.
\<close>

theorem whole_frames_only:
  assumes "spsc_run q0 s" and "rb_bytes (ringbuffer q0) = []"
    and "ringbuffer_space q0 = rb_size (ringbuffer q0) - 1" and "ringbuffer_space q0 < 2 ^ 31"
  shows "\<exists>consumed pending.
           started s = consumed @ pending
         \<and> subseq (emitted s) consumed
         \<and> rb_bytes (ringbuffer (shared_queue s)) @ inflight s = frames pending"
  using spsc_run_inv[OF assms] unfolding spsc_inv_def by blast

text \<open>
  At the state between the two ring writes of a three-byte message the theorem
  applies, and a drain takes nothing and leaves the queue as it is.
\<close>

theorem whole_frames_only_witness:
  "spsc_run (jack_queue_new 64) spsc_inflight64
   \<and> rb_bytes (ringbuffer (jack_queue_new 64)) = []
   \<and> ringbuffer_space (jack_queue_new 64) = rb_size (ringbuffer (jack_queue_new 64)) - 1
   \<and> ringbuffer_space (jack_queue_new 64) < 2 ^ 31
   \<and> (\<exists>consumed pending.
           started spsc_inflight64 = consumed @ pending
         \<and> subseq (emitted spsc_inflight64) consumed
         \<and> rb_bytes (ringbuffer (shared_queue spsc_inflight64)) @ inflight spsc_inflight64
             = frames pending)
   \<and> jack_queue_read (shared_queue spsc_inflight64) (\<lambda>events n. True) []
       = (shared_queue spsc_inflight64, [])"
proof -
  have q: "rb_bytes (ringbuffer (jack_queue_new 64)) = []"
    "ringbuffer_space (jack_queue_new 64) = rb_size (ringbuffer (jack_queue_new 64)) - 1"
    "ringbuffer_space (jack_queue_new 64) < 2 ^ 31"
    by (simp_all add: queue64)
  have "stuck [3, 0, 0, 0]"
    by (simp add: stuck_def size_sz_def decode_int32_def to_size_t_def)
  then have "read_loop (\<lambda>events n. True) \<lparr>rb_size = 64, rb_bytes = [3, 0, 0, 0]\<rparr> []
        = (\<lparr>rb_size = 64, rb_bytes = [3, 0, 0, 0]\<rparr>, [])"
    by (intro read_loop_stuck) simp
  then have "jack_queue_read (shared_queue spsc_inflight64) (\<lambda>events n. True) []
       = (shared_queue spsc_inflight64, [])"
    by (simp add: jack_queue_read_def spsc_inflight64_def)
  with whole_frames_only[OF inflight64_run q] inflight64_run q show ?thesis by blast
qed

text \<open>
  Claim C6 as stated fails at that state, which the consumer can observe: it peeks
  a full four-byte prefix announcing three bytes, and no payload byte follows.
\<close>

theorem whole_frames_only_counterexample:
  "spsc_run (jack_queue_new 64) spsc_inflight64
   \<and> length (jack_ringbuffer_peek (ringbuffer (shared_queue spsc_inflight64)) size_sz) = size_sz
   \<and> decode_int32 (jack_ringbuffer_peek (ringbuffer (shared_queue spsc_inflight64)) size_sz) = 3
   \<and> jack_ringbuffer_read_space (ringbuffer (shared_queue spsc_inflight64)) - size_sz = 0"
  using inflight64_run
  by (simp add: spsc_inflight64_def jack_ringbuffer_peek_def jack_ringbuffer_read_space_def
        size_sz_def decode_int32_def)

section \<open>Properties of closing a JACK port\<close>

lemma wait_after_post:
  "wait_release_ack True (post_client_ready l) = Some (prepare_release_client l)"
  by (simp add: wait_release_ack_def prepare_release_client_def Let_def)

lemma do_close_port_closed:
  "jack_port self = None \<Longrightarrow> do_close_port J self h = (None, self, h, [])"
  by (simp add: do_close_port_def)

lemma do_close_port_open:
  "jack_port self = Some p \<Longrightarrow>
   do_close_port J self h
     = (from_errc (fst (jack_port_unregister J (jack_client self) p h)),
        self\<lparr>jack_port := None,
             thread_lock := snd (prepare_release_client (thread_lock self))\<rparr>,
        snd (jack_port_unregister J (jack_client self) p h),
        [Store_port None, Prepare_release_client, Port_unregister (jack_client self) p])"
  by (simp add: do_close_port_def port_assign_def release_client_def port_unregister_def
        Let_def split: prod.splits)

lemma do_close_port_actions:
  "snd (snd (snd (do_close_port J self h)))
     = (case jack_port self of
          None \<Rightarrow> []
        | Some p \<Rightarrow> [Store_port None, Prepare_release_client,
                      Port_unregister (jack_client self) p])"
  by (simp add: do_close_port_closed do_close_port_open split: option.splits)






text \<open>
  Runs of the two threads with a client of its own.  The port is opened and a cycle
  passes its test of the slot.
\<close>

lemma jack_entered_run:
  "jack_run False
     \<lparr>slot = Some 2, shared_lock = \<lparr>client_ready = 0, release_ack = 0\<rparr>, registered = {2},
      closing = [],
      posted = False, timed_out = False, rt = Rt_entered\<rparr>"
proof -
  let ?s0 = "\<lparr>slot = None, shared_lock = \<lparr>client_ready = 0, release_ack = 0\<rparr>, registered = {},
              closing = [],
              posted = False, timed_out = False, rt = Rt_idle\<rparr>"
  let ?s1 = "\<lparr>slot = Some 2, shared_lock = \<lparr>client_ready = 0, release_ack = 0\<rparr>, registered = {2},
              closing = [],
              posted = False, timed_out = False, rt = Rt_idle\<rparr>"
  let ?s2 = "\<lparr>slot = Some 2, shared_lock = \<lparr>client_ready = 0, release_ack = 0\<rparr>, registered = {2},
              closing = [],
              posted = False, timed_out = False, rt = Rt_entered\<rparr>"
  have r0: "jack_run False ?s0"
    using jack_run.start[of False] by (simp add: jack_system_init_def)
  have "jack_step False ?s0 ?s1"
    using jack_step.open_port[where s = ?s0 and p = "2" and ctx = False]
    by simp
  with r0 have r1: "jack_run False ?s1"
    by (rule jack_run.step)
  have "jack_step False ?s1 ?s2"
    using jack_step.cycle_enter[where s = ?s1 and ctx = False]
    by simp
  with r1 have r2: "jack_run False ?s2"
    by (rule jack_run.step)
  from r2 show ?thesis .
qed




text \<open>
  Or \<open>do_close_port\<close> starts and stores null after the test of the slot and before
  \<open>process\<close>.
\<close>

lemma jack_null_process_example_run: "jack_run False jack_null_process_example"
proof -
  let ?s0 = "\<lparr>slot = Some 2, shared_lock = \<lparr>client_ready = 0, release_ack = 0\<rparr>, registered = {2},
              closing = [],
              posted = False, timed_out = False, rt = Rt_entered\<rparr>"
  let ?s1 = "\<lparr>slot = Some 2, shared_lock = \<lparr>client_ready = 0, release_ack = 0\<rparr>, registered = {2},
              closing = [Store_port None, Prepare_release_client, Port_unregister (Some 1) 2],
              posted = False, timed_out = False, rt = Rt_entered\<rparr>"
  let ?s2 = "\<lparr>slot = None, shared_lock = \<lparr>client_ready = 0, release_ack = 0\<rparr>, registered = {2},
              closing = [Prepare_release_client, Port_unregister (Some 1) 2],
              posted = False, timed_out = False, rt = Rt_entered\<rparr>"
  let ?s3 = "\<lparr>slot = None, shared_lock = \<lparr>client_ready = 0, release_ack = 0\<rparr>, registered = {2},
              closing = [Prepare_release_client, Port_unregister (Some 1) 2],
              posted = False, timed_out = False, rt = Rt_processing None\<rparr>"
  note r0 = jack_entered_run
  have "jack_step False ?s0 ?s1"
    using jack_step.close_begin[where s = ?s0 and self = "helpers_open" and J = "jack_host_ok"
        and h = "()" and ctx = False]
    by (simp add: do_close_port_actions helpers_open_def)
  with r0 have r1: "jack_run False ?s1"
    by (rule jack_run.step)
  have "jack_step False ?s1 ?s2"
    using jack_step.store_port[where s = ?s1 and v = "None"
        and rest = "[Prepare_release_client, Port_unregister (Some 1) 2]" and ctx = False]
    by simp
  with r1 have r2: "jack_run False ?s2"
    by (rule jack_run.step)
  have "jack_step False ?s2 ?s3"
    using jack_step.process_begin[where s = ?s2 and ctx = False]
    by simp
  with r2 have r3: "jack_run False ?s3"
    by (rule jack_run.step)
  from r3 show ?thesis by (simp add: jack_null_process_example_def)
qed

text \<open>
  With a client of its own the callback returns before \<open>check_client_released\<close> once
  it finds the slot null.  So a wait that begins while the callback is between
  cycles is never acknowledged: whatever the two threads do, it goes on or ends by
  its time bound.
\<close>

lemma own_client_idle_wait:
  assumes "idle_wait s" and "jack_step False s s'"
  shows "idle_wait s' \<or> (timed_out s' \<and> closing s' = tl (closing s))"
  using assms(2,1)
  by (cases rule: jack_step.cases)
     (auto simp: idle_wait_def wait_release_ack_def split: if_splits)




text \<open>
  Between the store and the handshake a callback that had passed its test of the slot
  can still enter \<open>process\<close>; it then loads the null slot and not the port.
\<close>

lemma null_process_reachable:
  "jack_run False jack_null_process_example
   \<and> rt jack_null_process_example = Rt_processing None"
  using jack_null_process_example_run by (simp add: jack_null_process_example_def)

lemma jack_queue_write_cases:
  "jack_queue_write q w =
     (if ringbuffer_space q < length w + 4 then Some (Some no_buffer_space, q)
      else if jack_ringbuffer_write_space (ringbuffer q) < length w + 4 then None
      else Some (None, q\<lparr>ringbuffer := (ringbuffer q)\<lparr>rb_bytes :=
                          rb_bytes (ringbuffer q) @ frame w\<rparr>\<rparr>))"
proof -
  consider "ringbuffer_space q < length w + 4"
    | "length w + 4 \<le> ringbuffer_space q"
      "jack_ringbuffer_write_space (ringbuffer q) < length w + 4"
    | "length w + 4 \<le> ringbuffer_space q"
      "length w + 4 \<le> jack_ringbuffer_write_space (ringbuffer q)"
    by linarith
  then show ?thesis
  proof cases
    case 1
    then show ?thesis by (simp add: jack_queue_write_def size_sz_def)
  next
    case 2
    then show ?thesis
      by (simp add: jack_queue_write_def size_sz_def wait_write_space_None)
  next
    case 3
    from 3(2) have "length (rb_bytes (ringbuffer q)) + (length w + 4)
                      \<le> rb_size (ringbuffer q) - 1"
      by (simp add: jack_ringbuffer_write_space_def)
    with 3 show ?thesis by (simp add: jack_queue_write_fits)
  qed
qed

text \<open>
  Claim C8, as the code has it, for the queued JACK variant.  After \<open>close_port\<close> no
  port is open and the queue is untouched; the call returns the host's status of
  the unregistration, success if no port was open.  A second \<open>close_port\<close> returns
  success, changes nothing and does nothing.  A \<open>send_message\<close> after that is not
  refused for the missing port.  It returns \<open>no_buffer_space\<close> when the frame
  exceeds the capacity of the queue; it returns success, with the frame appended to
  the ring, when the frame fits the free space of the ring; and in between, when
  the frame fits the capacity but not the free space, it does not return: it waits
  for space that only a drain of the ring can give.
\<close>

theorem close_twice_then_send:
  "(case queued_close_port J self h of (r1, s1, h1, a1) \<Rightarrow>
      jack_port s1 = None \<and> queue s1 = queue self
    \<and> r1 = (case jack_port self of
               None \<Rightarrow> None
             | Some p \<Rightarrow> from_errc (fst (jack_port_unregister J (jack_client self) p h)))
    \<and> queued_close_port J s1 h1 = (None, s1, h1, [])
    \<and> queued_send_message s1 b =
        (if ringbuffer_space (queue self) < length b + 4
         then Some (Some no_buffer_space, s1)
         else if jack_ringbuffer_write_space (ringbuffer (queue self)) < length b + 4
         then None
         else Some (None, s1\<lparr>queue := (queue self)\<lparr>ringbuffer :=
                 (ringbuffer (queue self))\<lparr>rb_bytes :=
                    rb_bytes (ringbuffer (queue self)) @ frame b\<rparr>\<rparr>\<rparr>)))"
proof (cases "jack_port self")
  case None
  then show ?thesis
    by (cases self)
       (simp add: queued_close_port_def do_close_port_closed queued_send_message_def
          jack_queue_write_cases)
next
  case (Some p)
  then show ?thesis
    by (cases self)
       (simp add: queued_close_port_def do_close_port_open do_close_port_closed
          queued_send_message_def jack_queue_write_cases)
qed

text \<open>
  With an empty ring the message is accepted after the close.  With 60 of the 63
  usable bytes taken, a three-byte message, whose frame has seven bytes, is waited
  for without end, and a message of 60 bytes is refused for its size.
\<close>

theorem close_twice_then_send_witness:
  "(case queued_close_port jack_host_ok queued64 () of (r1, s1, h1, a1) \<Rightarrow>
      r1 = None \<and> jack_port s1 = None
    \<and> queued_close_port jack_host_ok s1 h1 = (None, s1, h1, [])
    \<and> map_option fst (queued_send_message s1 [0x90, 0x3C, 0x7F]) = Some None)
   \<and> (case queued_close_port jack_host_ok queued64_busy () of (r1, s1, h1, a1) \<Rightarrow>
      r1 = None \<and> jack_port s1 = None
    \<and> queued_send_message s1 [0x90, 0x3C, 0x7F] = None
    \<and> queued_send_message s1 (replicate 60 0) = Some (Some no_buffer_space, s1))"
proof -
  obtain r1 s1 h1 a1 where c: "queued_close_port jack_host_ok queued64 () = (r1, s1, h1, a1)"
    by (cases "queued_close_port jack_host_ok queued64 ()") auto
  obtain r2 s2 h2 a2 where
    d: "queued_close_port jack_host_ok queued64_busy () = (r2, s2, h2, a2)"
    by (cases "queued_close_port jack_host_ok queued64_busy ()") auto
  have q: "queue queued64 = \<lparr>ringbuffer = \<lparr>rb_size = 64, rb_bytes = []\<rparr>, ringbuffer_space = 63\<rparr>"
    by (simp add: queued64_def queue64)
  have qb: "queue queued64_busy
              = \<lparr>ringbuffer = \<lparr>rb_size = 64, rb_bytes = frame (replicate 56 0)\<rparr>,
                 ringbuffer_space = 63\<rparr>"
    by (simp add: queued64_busy_def queue64)
  have p: "jack_port queued64 = Some 2" "jack_client queued64 = Some 1"
    "jack_port queued64_busy = Some 2" "jack_client queued64_busy = Some 1"
    by (simp_all add: queued64_busy_def queued64_def)
  have one: "r1 = None \<and> jack_port s1 = None
    \<and> queued_close_port jack_host_ok s1 h1 = (None, s1, h1, [])
    \<and> map_option fst (queued_send_message s1 [0x90, 0x3C, 0x7F]) = Some None"
    using close_twice_then_send[where J = jack_host_ok and self = queued64 and h = "()"
         and b = "[0x90, 0x3C, 0x7F]"] c
    by (simp add: q p jack_host_ok_def from_errc_def jack_ringbuffer_write_space_def)
  have two: "r2 = None \<and> jack_port s2 = None
    \<and> queued_send_message s2 [0x90, 0x3C, 0x7F] = None"
    using close_twice_then_send[where J = jack_host_ok and self = queued64_busy and h = "()"
         and b = "[0x90, 0x3C, 0x7F]"] d
    by (simp add: qb p jack_host_ok_def from_errc_def jack_ringbuffer_write_space_def)
  have three: "queued_send_message s2 (replicate 60 0) = Some (Some no_buffer_space, s2)"
    using close_twice_then_send[where J = jack_host_ok and self = queued64_busy and h = "()"
         and b = "replicate 60 0"] d
    by (simp add: qb p jack_host_ok_def from_errc_def jack_ringbuffer_write_space_def)
  from one two three c d show ?thesis by simp
qed

text \<open>
  Claim C8 as stated fails: after two calls of \<open>close_port\<close>, both successful, a
  three-byte message is accepted.
\<close>

theorem close_twice_then_send_counterexample:
  "(case queued_close_port jack_host_ok queued64 () of (r1, s1, h1, a1) \<Rightarrow>
      case queued_close_port jack_host_ok s1 h1 of (r2, s2, h2, a2) \<Rightarrow>
        r1 = None \<and> r2 = None
      \<and> map_option fst (queued_send_message s2 [0x90, 0x3C, 0x7F]) = Some None)"
  by (simp add: queued_close_port_def do_close_port_open do_close_port_closed queued64_def
        jack_host_ok_def from_errc_def queued_send_message_def queue64 jack_queue_write_def
        size_sz_def wait_write_space_enough jack_ringbuffer_write_space_def option.map_comp
        comp_def split_def Let_def)


section \<open>Properties of the PipeWire graph\<close>


lemma slot_ports_remove_port:
  "slot_ports (remove_port g i) sl = filter (\<lambda>p. info_id p \<noteq> i) (slot_ports g sl)"
proof -
  obtain m k d where sl: "sl = (m, k, d)" by (cases sl) auto
  show ?thesis unfolding sl
    by (cases m) (auto simp: remove_port_def erase_port_def split: option.splits)
qed

lemma occurrences_remove_port:
  "occurrences (remove_port g i) j sl = (if j = i then 0 else occurrences g j sl)"
proof -
  have "length (filter (\<lambda>p. info_id p = j) (filter (\<lambda>p. info_id p \<noteq> i) ps))
          = (if j = i then 0 else length (filter (\<lambda>p. info_id p = j) ps))" for ps
    by (induction ps) auto
  then show ?thesis
    unfolding occurrences_def slot_ports_remove_port by blast
qed

lemma info_id_parse_item [simp]: "info_id (parse_item p item) = info_id p"
  by (simp add: parse_item_def Let_def)

lemma info_id_parsed [simp]: "info_id (foldl parse_item p props) = info_id p"
  by (induction props arbitrary: p) simp_all

lemma push_port_slot:
  "(case push_port m k p k' of
      None \<Rightarrow> []
    | Some n \<Rightarrow> (if d = SPA_DIRECTION_OUTPUT then outputs n else inputs n))
   = (case m k' of
        None \<Rightarrow> []
      | Some n \<Rightarrow> (if d = SPA_DIRECTION_OUTPUT then outputs n else inputs n))
     @ (if k' = k \<and> d = direction p then [p] else [])"
  by (cases "direction p"; cases d)
     (auto simp: push_port_def node_at_def split: option.splits)

lemma register_port_slots:
  assumes "register_port g i props = Inr g'"
  shows "g' = g
       \<or> (\<exists>sl p. info_id p = i
             \<and> (\<forall>sl'. slot_ports g' sl' = slot_ports g sl' @ (if sl' = sl then [p] else [])))"
proof -
  define p where "p = foldl parse_item (new_port_info i) props"
  have id: "info_id p = i" by (simp add: p_def new_port_info_def)
  show ?thesis
  proof (cases "g' = g")
    case True
    then show ?thesis by simp
  next
    case False
    then obtain n where n: "stoul (node_id p) = Inr n"
      using assms by (auto simp: register_port_def p_def Let_def split: if_splits sum.splits)
    define nid where "nid = (of_nat n :: 32 word)"
    consider (pa) "g' = g\<lparr>physical_audio := push_port (physical_audio g) nid p\<rparr>"
      | (pm) "g' = g\<lparr>physical_midi := push_port (physical_midi g) nid p\<rparr>"
      | (sa) "g' = g\<lparr>software_audio := push_port (software_audio g) nid p\<rparr>"
      | (sm) "g' = g\<lparr>software_midi := push_port (software_midi g) nid p\<rparr>"
      using assms False n
      by (auto simp: register_port_def p_def[symmetric] nid_def Let_def split: if_splits)
    then show ?thesis
    proof cases
      case pa
      have "slot_ports g' sl' = slot_ports g sl'
              @ (if sl' = (Physical_audio, nid, direction p) then [p] else [])" for sl'
      proof -
        obtain m k d where sl: "sl' = (m, k, d)" by (cases sl') auto
        show ?thesis unfolding sl pa
          using push_port_slot[where m = "physical_audio g" and k = nid and p = p and k' = k and d = d]
            by (cases m) auto
      qed
      with id show ?thesis by blast
    next
      case pm
      have "slot_ports g' sl' = slot_ports g sl'
              @ (if sl' = (Physical_midi, nid, direction p) then [p] else [])" for sl'
      proof -
        obtain m k d where sl: "sl' = (m, k, d)" by (cases sl') auto
        show ?thesis unfolding sl pm
          using push_port_slot[where m = "physical_midi g" and k = nid and p = p and k' = k and d = d]
            by (cases m) auto
      qed
      with id show ?thesis by blast
    next
      case sa
      have "slot_ports g' sl' = slot_ports g sl'
              @ (if sl' = (Software_audio, nid, direction p) then [p] else [])" for sl'
      proof -
        obtain m k d where sl: "sl' = (m, k, d)" by (cases sl') auto
        show ?thesis unfolding sl sa
          using push_port_slot[where m = "software_audio g" and k = nid and p = p and k' = k and d = d]
            by (cases m) auto
      qed
      with id show ?thesis by blast
    next
      case sm
      have "slot_ports g' sl' = slot_ports g sl'
              @ (if sl' = (Software_midi, nid, direction p) then [p] else [])" for sl'
      proof -
        obtain m k d where sl: "sl' = (m, k, d)" by (cases sl') auto
        show ?thesis unfolding sl sm
          using push_port_slot[where m = "software_midi g" and k = nid and p = p and k' = k and d = d]
            by (cases m) auto
      qed
      with id show ?thesis by blast
    qed
  qed
qed

lemma unique_slots_register:
  assumes "unique_slots g" and "\<not> in_graph g i" and "register_port g i props = Inr g'"
  shows "unique_slots g'"
proof -
  from register_port_slots[OF assms(3)] show ?thesis
  proof
    assume "g' = g"
    with assms(1) show ?thesis by simp
  next
    assume "\<exists>sl p. info_id p = i
             \<and> (\<forall>sl'. slot_ports g' sl' = slot_ports g sl' @ (if sl' = sl then [p] else []))"
    then obtain sl p where id: "info_id p = i"
      and sp: "\<And>sl'. slot_ports g' sl' = slot_ports g sl' @ (if sl' = sl then [p] else [])"
      by blast
    have zero: "occurrences g i sl' = 0" for sl'
      using assms(2) unfolding in_graph_def by (cases sl') auto
    have occ: "occurrences g' j sl'
                 = occurrences g j sl' + (if sl' = sl \<and> j = i then 1 else 0)" for j sl'
      using id by (simp add: occurrences_def sp)
    have u1: "s1 = s2" if "0 < occurrences g j s1" "0 < occurrences g j s2" for j s1 s2
      using assms(1) that unfolding unique_slots_def by blast
    have u2: "occurrences g j s \<le> 1" for j s
      using assms(1) unfolding unique_slots_def by blast
    show ?thesis
      unfolding unique_slots_def
    proof (intro conjI allI impI)
      fix j sl1 sl2
      assume a: "0 < occurrences g' j sl1 \<and> 0 < occurrences g' j sl2"
      show "sl1 = sl2"
      proof (cases "j = i")
        case True
        have "sl1 = sl" using a zero[of sl1] occ[of j sl1] True by (simp split: if_splits)
        moreover have "sl2 = sl" using a zero[of sl2] occ[of j sl2] True by (simp split: if_splits)
        ultimately show ?thesis by simp
      next
        case False
        then have "0 < occurrences g j sl1" "0 < occurrences g j sl2"
          using a occ[of j sl1] occ[of j sl2] by simp_all
        then show ?thesis by (rule u1)
      qed
    next
      fix j sl'
      show "occurrences g' j sl' \<le> 1"
      proof (cases "j = i")
        case True
        with zero[of sl'] occ[of j sl'] show ?thesis by simp
      next
        case False
        with occ[of j sl'] u2[of j sl'] show ?thesis by simp
      qed
    qed
  qed
qed

lemma unique_slots_remove:
  assumes "unique_slots g"
  shows "unique_slots (remove_port g i)"
proof -
  have u1: "s1 = s2" if "0 < occurrences g j s1" "0 < occurrences g j s2" for j s1 s2
    using assms that unfolding unique_slots_def by blast
  have u2: "occurrences g j s \<le> 1" for j s
    using assms unfolding unique_slots_def by blast
  show ?thesis
    unfolding unique_slots_def occurrences_remove_port
  proof (intro conjI allI impI)
    fix j sl1 sl2
    assume "0 < (if j = i then 0 else occurrences g j sl1)
          \<and> 0 < (if j = i then 0 else occurrences g j sl2)"
    then have "0 < occurrences g j sl1" "0 < occurrences g j sl2"
      by (simp_all split: if_splits)
    then show "sl1 = sl2" by (rule u1)
  next
    fix j sl'
    show "(if j = i then 0 else occurrences g j sl') \<le> 1"
      using u2[of j sl'] by simp
  qed
qed

lemma not_in_graph_removed: "\<not> in_graph (remove_port g i) i"
  by (simp add: in_graph_def occurrences_remove_port)

lemma slot_ports_empty [simp]: "slot_ports empty_graph sl = []"
proof -
  obtain m k d where sl: "sl = (m, k, d)" by (cases sl) auto
  show ?thesis unfolding sl by (cases m) (simp_all add: empty_graph_def)
qed

lemma not_in_empty_graph: "\<not> in_graph empty_graph i"
  by (simp add: in_graph_def occurrences_def)

lemma unique_slots_empty: "unique_slots empty_graph"
  by (simp add: unique_slots_def occurrences_def)

lemma in_graph_register:
  assumes "register_port g i props = Inr g'" and "in_graph g' j"
  shows "j = i \<or> in_graph g j"
proof -
  from register_port_slots[OF assms(1)] show ?thesis
  proof
    assume "g' = g"
    with assms(2) show ?thesis by simp
  next
    assume "\<exists>sl p. info_id p = i
             \<and> (\<forall>sl'. slot_ports g' sl' = slot_ports g sl' @ (if sl' = sl then [p] else []))"
    then obtain sl p where id: "info_id p = i"
      and sp: "\<And>sl'. slot_ports g' sl' = slot_ports g sl' @ (if sl' = sl then [p] else [])"
      by blast
    from assms(2) obtain sl' where "0 < occurrences g' j sl'"
      unfolding in_graph_def by blast
    then have "j = i \<or> 0 < occurrences g j sl'"
      using id by (auto simp: occurrences_def sp split: if_splits)
    then show ?thesis unfolding in_graph_def by blast
  qed
qed

lemma in_graph_remove:
  "in_graph (remove_port g i) j \<longleftrightarrow> j \<noteq> i \<and> in_graph g j"
  by (auto simp: in_graph_def occurrences_remove_port)

lemma unique_slots_events:
  assumes "unique_slots (current_graph c)"
    and "\<forall>i. in_graph (current_graph c) i \<longrightarrow> i \<in> set seen"
    and "process_events c es = Inr c'" and "described_once seen es"
  shows "unique_slots (current_graph c')"
  using assms
proof (induction es arbitrary: c seen)
  case Nil
  then show ?case by simp
next
  case (Cons e es)
  from Cons.prems(3) obtain c1 where h: "handle_event c e = Inr c1"
    and rest: "process_events c1 es = Inr c'"
    by (auto split: sum.splits)
  show ?case
  proof (cases e)
    case (Global i tp proxy)
    with h have g: "current_graph c1 = current_graph c" by (auto split: if_splits)
    from Global Cons.prems(4) have "described_once seen es" by simp
    with Cons.IH[of c1 seen] g Cons.prems(1,2) rest show ?thesis by simp
  next
    case (Global_remove i)
    with h have g: "current_graph c1 = remove_port (current_graph c) i" by auto
    from Global_remove Cons.prems(4) have d: "described_once (removeAll i seen) es" by simp
    have u: "unique_slots (current_graph c1)"
      using Cons.prems(1) g by (simp add: unique_slots_remove)
    have "\<forall>j. in_graph (current_graph c1) j \<longrightarrow> j \<in> set (removeAll i seen)"
      using Cons.prems(2) g by (simp add: in_graph_remove)
    from Cons.IH[OF u this rest d] show ?thesis .
  next
    case (Port_info i props)
    with Cons.prems(4) have new: "i \<notin> set seen" and d: "described_once (i # seen) es"
      by simp_all
    from new Cons.prems(2) have nin: "\<not> in_graph (current_graph c) i" by blast
    from Port_info h obtain g where g: "register_port (current_graph c) i props = Inr g"
      and c1: "c1 = c\<lparr>current_graph := g\<rparr>"
      by (auto split: sum.splits)
    have u: "unique_slots (current_graph c1)"
      using unique_slots_register[OF Cons.prems(1) nin g] c1 by simp
    have "\<forall>j. in_graph (current_graph c1) j \<longrightarrow> j \<in> set (i # seen)"
      using in_graph_register[OF g] Cons.prems(2) c1 by auto
    from Cons.IH[OF u this rest d] show ?thesis .
  qed
qed

lemma stoul_42: "stoul ''42'' = Inr 42"
  by (simp add: stoul_def is_space_def is_digit_def digits_value_def)

text \<open>
  Claim C7, as the code has it.  Processing \<open>global_remove\<close> for an id leaves no port
  record with that id in any vector of any node of the four maps.  \<open>register_port\<close>
  appends without looking the id up, so uniqueness rests on the events: after a
  sequence of events in which no port is described twice, processed from the empty
  context without an exception, every port id occurs in at most one slot, and at
  most once there.
\<close>

theorem graph_ports_unique:
  "(\<exists>c'. handle_event c0 (Global_remove i) = Inr c' \<and> \<not> in_graph (current_graph c') i)
   \<and> (process_events pipewire_context_init es = Inr c \<and> described_once [] es \<longrightarrow>
      unique_slots (current_graph c))"
proof (intro conjI impI)
  show "\<exists>c'. handle_event c0 (Global_remove i) = Inr c' \<and> \<not> in_graph (current_graph c') i"
    by (simp add: not_in_graph_removed)
next
  assume "process_events pipewire_context_init es = Inr c \<and> described_once [] es"
  then show "unique_slots (current_graph c)"
    using unique_slots_events[of pipewire_context_init "[]" es c]
    by (simp add: pipewire_context_init_def unique_slots_empty not_in_empty_graph)
qed

lemma port7_registered:
  "register_port empty_graph 7 port7_props
     = Inr (empty_graph\<lparr>software_midi :=
         [42 \<mapsto> \<lparr>inputs = [], outputs = [\<lparr>info_id = 7, format = ''8 bit raw midi'',
            port_name = [], port_alias = [], object_path = [], node_id = ''42'', port_id = [],
            physical = False, terminal = False, monitor = False,
            direction = SPA_DIRECTION_OUTPUT\<rparr>]\<rparr>]\<rparr>)"
  by (simp add: port7_props_def register_port_def parse_item_def new_port_info_def stoul_42
        sublist_code push_port_def node_at_def empty_graph_def Let_def)

text \<open>The lifetime of one port is such a sequence; at its end the port is gone.\<close>

theorem graph_ports_unique_witness:
  "described_once [] port7_lifetime
   \<and> (\<exists>c. process_events pipewire_context_init port7_lifetime = Inr c
        \<and> unique_slots (current_graph c) \<and> \<not> in_graph (current_graph c) 7)"
proof -
  have once: "described_once [] port7_lifetime"
    by (simp add: port7_lifetime_def)
  obtain c where c: "process_events pipewire_context_init port7_lifetime = Inr c"
    by (simp add: port7_lifetime_def pipewire_context_init_def port7_registered)
  have "unique_slots (current_graph c)"
    using graph_ports_unique[of pipewire_context_init 7 port7_lifetime c] c once by simp
  moreover have "\<not> in_graph (current_graph c) 7"
    using c by (auto simp: port7_lifetime_def pipewire_context_init_def port7_registered
                  not_in_graph_removed)
  ultimately show ?thesis using c once by blast
qed

text \<open>
  Claim C7 as stated fails: when a second port-info event for port 7 carries
  \<open>port.physical\<close>, the id ends up both in \<open>software_midi[42].outputs\<close> and in
  \<open>physical_midi[42].outputs\<close>.
\<close>

theorem graph_ports_unique_counterexample:
  "(case process_events pipewire_context_init port7_twice of
      Inl x \<Rightarrow> False
    | Inr c \<Rightarrow>
        occurrences (current_graph c) 7 (Software_midi, 42, SPA_DIRECTION_OUTPUT) = 1
      \<and> occurrences (current_graph c) 7 (Physical_midi, 42, SPA_DIRECTION_OUTPUT) = 1)"
  by (simp add: port7_twice_def pipewire_context_init_def port7_registered
        port7_props_def register_port_def parse_item_def new_port_info_def stoul_42
        sublist_code push_port_def node_at_def empty_graph_def Let_def occurrences_def)

section \<open>Properties of the PipeWire filter\<close>

text \<open>
  Claim C10.  On a filter that has a local port, \<open>rename_port\<close> passes the port to
  \<open>filter_update_properties\<close> with the new name and then stores null in place of
  the port; on the filter it leaves behind, \<open>remove_port\<close> and \<open>rename_port\<close> both
  fail their assertion.  \<open>remove_port\<close> passes the port to \<open>filter_remove_port\<close> and
  then stores null.
\<close>

theorem rename_drops_port:
  assumes "filter_port f = Some p"
  shows "rename_port f name
           = Inr (f\<lparr>filter_port := None\<rparr>,
                  [Filter_update_properties (filter_handle f) p [(PW_KEY_PORT_NAME, name)]])
       \<and> filter_remove_port (f\<lparr>filter_port := None\<rparr>) = Inl Assertion_failed
       \<and> rename_port (f\<lparr>filter_port := None\<rparr>) name' = Inl Assertion_failed
       \<and> filter_remove_port f = Inr (f\<lparr>filter_port := None\<rparr>, [Filter_remove_port p])"
  using assms by (simp add: rename_port_def filter_remove_port_def)

theorem rename_drops_port_witness:
  "filter_port filter_with_port = Some 2
   \<and> rename_port filter_with_port ''out''
       = Inr (\<lparr>filter_handle = Some 1, filter_port = None\<rparr>,
              [Filter_update_properties (Some 1) 2 [(''port.name'', ''out'')]])
   \<and> filter_remove_port \<lparr>filter_handle = Some 1, filter_port = None\<rparr> = Inl Assertion_failed
   \<and> rename_port \<lparr>filter_handle = Some 1, filter_port = None\<rparr> ''again'' = Inl Assertion_failed
   \<and> filter_remove_port filter_with_port
       = Inr (\<lparr>filter_handle = Some 1, filter_port = None\<rparr>, [Filter_remove_port 2])"
  using rename_drops_port[of filter_with_port 2 "''out''" "''again''"]
  by (simp add: filter_with_port_def PW_KEY_PORT_NAME_def)

end
